theory Spec2Isabelle
  imports Complex_Main "HOL-Library.AList"
begin

section \<open>Money, identifiers and rounding\<close>

text \<open>
  The backend computes with Python's \<^verbatim>\<open>decimal.Decimal\<close> under the default context:
  28 significant digits, \<^verbatim>\<open>ROUND_HALF_EVEN\<close>, exponents between \<^verbatim>\<open>Emin = -999999\<close>
  and \<^verbatim>\<open>Emax = 999999\<close>, traps on \<^verbatim>\<open>InvalidOperation\<close>, \<^verbatim>\<open>DivisionByZero\<close> and
  \<^verbatim>\<open>Overflow\<close>.  A finite \<^verbatim>\<open>Decimal\<close> is taken by its value, a rational number; the
  helpers and validators, which receive request data of any length, round every
  result to the context as the library does.  Comparisons are exact.  UUIDs are
  opaque keys; natural numbers stand for them.
\<close>

type_synonym money = rat
type_synonym uuid = nat

text \<open>
  \<^verbatim>\<open>ROUND_HALF_EVEN\<close> to an integer: the nearest integer, a tie going to the even
  neighbour.
\<close>

definition round_half_even :: "rat \<Rightarrow> int" where
  "round_half_even x =
     (let f = \<lfloor>x\<rfloor>; d = x - of_int f
      in if d < 1 / 2 then f
         else if 1 / 2 < d then f + 1
         else if even f then f else f + 1)"

text \<open>
  The value of \<^verbatim>\<open>v.quantize(Decimal(10) ** -places, rounding=ROUND_HALF_EVEN)\<close>: \<open>v\<close>
  rounded to \<open>places\<close> decimal places.  The default context rounds half to even as
  well, so \<^verbatim>\<open>amount.quantize(Decimal('0.01'))\<close> is \<open>quantize amount 2\<close>.
\<close>

definition quantize :: "rat \<Rightarrow> nat \<Rightarrow> rat" where
  "quantize v places = rat_of_int (round_half_even (v * 10 ^ places)) / 10 ^ places"

text \<open>An amount in whole cents, as a \<^verbatim>\<open>Numeric(10, 2)\<close> column holds it.\<close>

definition whole_cents :: "rat \<Rightarrow> bool" where
  "whole_cents x \<longleftrightarrow> rat_of_int \<lfloor>x * 100\<rfloor> = x * 100"

section \<open>Errors\<close>

text \<open>
  The exceptions raised by the helpers and validators: the \<^verbatim>\<open>ValueError\<close>s, told
  apart by their message (a message that interpolates values carries them as
  arguments), and the two signals of the \<^verbatim>\<open>decimal\<close> module that the default context
  traps and these computations can raise.
\<close>

datatype error =
    ParticipantsNotPositive     \<comment> \<open>ValueError "Number of participants must be positive"\<close>
  | AmountNotPositive           \<comment> \<open>ValueError "Amount must be positive"\<close>
  | SplitsSumMismatch rat rat   \<comment> \<open>ValueError "Splits sum (splits_sum) doesn't match total (total)"\<close>
  | InvalidOperation            \<comment> \<open>\<^verbatim>\<open>decimal.InvalidOperation\<close>\<close>
  | Overflow                    \<comment> \<open>\<^verbatim>\<open>decimal.Overflow\<close>\<close>

fun is_ValueError :: "error \<Rightarrow> bool" where
  "is_ValueError ParticipantsNotPositive = True"
| "is_ValueError AmountNotPositive = True"
| "is_ValueError (SplitsSumMismatch splits_sum total') = True"
| "is_ValueError InvalidOperation = False"
| "is_ValueError Overflow = False"

section \<open>Decimal arithmetic under the default context\<close>

text \<open>The number of decimal digits of a non-negative integer (one for zero).\<close>

function digits :: "int \<Rightarrow> int" where
  "digits n = (if n < 10 then 1 else 1 + digits (n div 10))"
  by pat_completeness auto
termination
  by (relation "measure nat") auto

declare digits.simps [simp del]

text \<open>
  The adjusted exponent of a non-zero value: the exponent of its leading digit,
  \<open>10 ^ e \<le> \<bar>x\<bar> < 10 ^ (e + 1)\<close>.
\<close>

definition adjusted :: "rat \<Rightarrow> int" where
  "adjusted x =
     (if 1 \<le> \<bar>x\<bar> then digits \<lfloor>\<bar>x\<bar>\<rfloor> - 1
      else - digits (\<lceil>1 / \<bar>x\<bar>\<rceil> - 1))"

definition Emax :: int where
  "Emax = 999999"

definition Etiny :: int where
  \<comment> \<open>\<^verbatim>\<open>Emin - prec + 1\<close>, the exponent of the last digit of a subnormal\<close>
  "Etiny = - 1000026"

text \<open>
  What the context does to the exact result of an operation: it keeps 28 significant
  digits (fewer for a subnormal, whose last digit cannot lie below \<open>Etiny\<close>), rounding
  half to even, and raises \<^verbatim>\<open>Overflow\<close> when the rounded result lies beyond \<open>Emax\<close>.
  A result that 28 digits hold exactly is returned as it is.
\<close>

definition context_round :: "rat \<Rightarrow> error + rat" where
  "context_round x =
     (if x = 0 then Inr 0
      else
        let q = max (adjusted x - 27) Etiny;
            r = rat_of_int (round_half_even (x / 10 powi q)) * 10 powi q
        in if r \<noteq> 0 \<and> Emax < adjusted r then Inl Overflow else Inr r)"

text \<open>\<^verbatim>\<open>a + b\<close>, \<^verbatim>\<open>a - b\<close> and \<^verbatim>\<open>a / b\<close> (for \<open>b \<noteq> 0\<close>) on \<^verbatim>\<open>Decimal\<close>s.\<close>

definition dec_add :: "rat \<Rightarrow> rat \<Rightarrow> error + rat" where
  "dec_add a b = context_round (a + b)"

definition dec_sub :: "rat \<Rightarrow> rat \<Rightarrow> error + rat" where
  "dec_sub a b = context_round (a - b)"

definition dec_div :: "rat \<Rightarrow> rat \<Rightarrow> error + rat" where
  "dec_div a b = context_round (a / b)"

text \<open>
  Python's \<^verbatim>\<open>sum\<close> over a list of \<^verbatim>\<open>Decimal\<close>s: it starts from the integer 0 and adds
  the elements from the left, each addition under the context.
\<close>

fun dec_sum_from :: "rat \<Rightarrow> rat list \<Rightarrow> error + rat" where
  "dec_sum_from acc [] = Inr acc"
| "dec_sum_from acc (x # xs) =
     (case dec_add acc x of Inl e \<Rightarrow> Inl e | Inr acc' \<Rightarrow> dec_sum_from acc' xs)"

definition dec_sum :: "rat list \<Rightarrow> error + rat" where
  "dec_sum xs = dec_sum_from 0 xs"

text \<open>
  \<^verbatim>\<open>utils/helpers.py: round_decimal(value, places=2)\<close>.  \<^verbatim>\<open>quantize\<close> raises
  \<^verbatim>\<open>InvalidOperation\<close> when the coefficient of its result has more digits than the
  precision.
\<close>

definition round_decimal :: "rat \<Rightarrow> nat \<Rightarrow> error + rat" where
  "round_decimal v places =
     (if 10 ^ 28 \<le> \<bar>round_half_even (v * 10 ^ places)\<bar> then Inl InvalidOperation
      else Inr (quantize v places))"

section \<open>Equal split\<close>

text \<open>\<^verbatim>\<open>utils/helpers.py: split_amount_equally(amount, num_participants)\<close>\<close>

definition split_amount_equally :: "money \<Rightarrow> int \<Rightarrow> error + money list" where
  "split_amount_equally amount num_participants =
     (if num_participants \<le> 0 then Inl ParticipantsNotPositive
      else
        case dec_div amount (rat_of_int num_participants) of
          Inl e \<Rightarrow> Inl e
        | Inr q \<Rightarrow>
            (case round_decimal q 2 of
               Inl e \<Rightarrow> Inl e
             | Inr base_amount \<Rightarrow>
                 let splits = replicate (nat num_participants) base_amount
                 in (case dec_sum splits of
                       Inl e \<Rightarrow> Inl e
                     | Inr total_splits \<Rightarrow>
                         if total_splits \<noteq> amount
                         then (case dec_sub amount total_splits of
                                 Inl e \<Rightarrow> Inl e
                               | Inr difference \<Rightarrow>
                                   (case dec_add (splits ! 0) difference of
                                      Inl e \<Rightarrow> Inl e
                                    | Inr first \<Rightarrow> Inr (splits[0 := first])))
                         else Inr splits)))"


section \<open>Data model\<close>

text \<open>\<^verbatim>\<open>models/expense.py: SplitMode\<close>\<close>

datatype SplitMode = EQUAL | CUSTOM_AMOUNT | PERCENTAGE

text \<open>The columns of \<^verbatim>\<open>Participant\<close>, \<^verbatim>\<open>Expense\<close> and \<^verbatim>\<open>ExpenseSplit\<close> that the
  split and balance code reads.\<close>

record Participant =
  p_id :: uuid
  p_group_id :: uuid
  p_name :: string

record Expense =
  e_id :: uuid
  e_group_id :: uuid
  e_amount :: money
  e_payer_id :: uuid
  e_split_mode :: SplitMode

record ExpenseSplit =
  s_expense_id :: uuid
  s_participant_id :: uuid
  s_amount :: money
  s_percentage :: "rat option"

text \<open>\<^verbatim>\<open>schemas/expense.py: ExpenseSplitCreate\<close>, one entry of the request's
  \<^verbatim>\<open>splits\<close> list; \<^verbatim>\<open>percentage\<close> is \<^verbatim>\<open>Optional[Decimal]\<close>.\<close>

record ExpenseSplitCreate =
  sc_participant_id :: uuid
  sc_amount :: money
  sc_percentage :: "rat option"

text \<open>The database session, as far as the queries of this development go: the rows
  of the three tables.\<close>

record Session =
  participants :: "Participant list"
  expenses :: "Expense list"
  expense_splits :: "ExpenseSplit list"

section \<open>Validators\<close>

text \<open>\<^verbatim>\<open>utils/validators.py: validate_splits_equal_total(splits, total)\<close>\<close>

definition validate_splits_equal_total :: "money list \<Rightarrow> money \<Rightarrow> error + bool" where
  "validate_splits_equal_total splits total' =
     (case dec_sum splits of
        Inl e \<Rightarrow> Inl e
      | Inr splits_sum \<Rightarrow>
          if splits_sum \<noteq> total' then Inl (SplitsSumMismatch splits_sum total')
          else Inr True)"

section \<open>Creating the splits of an expense\<close>

text \<open>
  What a request to create an expense can end in other than a normal return: the
  rejection of the request body by its schema (answered with status 422), an
  \<^verbatim>\<open>HTTPException\<close> with status 400 and a detail, a database error at \<^verbatim>\<open>db.flush()\<close>,
  or an exception that no code catches (the \<^verbatim>\<open>ValueError\<close> of
  \<^verbatim>\<open>split_amount_equally\<close>, a signal of the \<^verbatim>\<open>decimal\<close> module, the \<^verbatim>\<open>TypeError\<close> of
  \<^verbatim>\<open>sum\<close> over a list holding \<^verbatim>\<open>None\<close>).
\<close>

datatype detail =
    ParticipantNotFound uuid      \<comment> \<open>"Participant pid not found in this group"\<close>
  | PayerNotFound                 \<comment> \<open>"Payer not found in this group"\<close>
  | ValueErrorText error          \<comment> \<open>\<^verbatim>\<open>str(e)\<close> of the caught \<^verbatim>\<open>ValueError\<close>\<close>
  | PercentagesMustSum rat        \<comment> \<open>"Percentages must sum to 100, got total_percentage"\<close>

datatype failure =
    HTTP_422_UNPROCESSABLE_ENTITY
  | HTTP_400_BAD_REQUEST detail
  | DataError
  | Uncaught error
  | Uncaught_TypeError

definition valid_participant_ids :: "Session \<Rightarrow> Expense \<Rightarrow> uuid set" where
  "valid_participant_ids db expense =
     set (map p_id (filter (\<lambda>p. p_group_id p = e_group_id expense) (participants db)))"

definition percentage_amount :: "money \<Rightarrow> rat \<Rightarrow> money" where
  \<comment> \<open>\<^verbatim>\<open>amount = (expense.amount * split_data.percentage) / 100\<close>, then
      \<^verbatim>\<open>amount.quantize(Decimal('0.01'))\<close>\<close>
  "percentage_amount amount pct = quantize ((amount * pct) / 100) 2"

text \<open>
  \<^verbatim>\<open>api/expenses.py: validate_and_create_splits(expense, splits_data, db)\<close>.  The
  function returns nothing and hands each new \<^verbatim>\<open>ExpenseSplit\<close> to \<^verbatim>\<open>db.add\<close>; the
  model returns the rows added, in the order they are added.  The equal and the
  custom-amount branch call the helper and the validator above.  The percentage
  branch computes in place, on percentages that the schema keeps in \<open>[0, 100]\<close> and
  an amount that the \<^verbatim>\<open>Numeric(10, 2)\<close> column of the flushed expense holds; no
  result there comes near 28 digits and the operations are written exactly.
\<close>

definition validate_and_create_splits ::
    "Expense \<Rightarrow> ExpenseSplitCreate list \<Rightarrow> Session \<Rightarrow> failure + ExpenseSplit list" where
  "validate_and_create_splits expense splits_data db =
     (case find (\<lambda>pid. pid \<notin> valid_participant_ids db expense)
                (map sc_participant_id splits_data) of
        Some pid \<Rightarrow> Inl (HTTP_400_BAD_REQUEST (ParticipantNotFound pid))
      | None \<Rightarrow>
         (case e_split_mode expense of
            EQUAL \<Rightarrow>
              (case split_amount_equally (e_amount expense) (int (length splits_data)) of
                 Inl e \<Rightarrow> Inl (Uncaught e)
               | Inr equal_splits \<Rightarrow>
                   Inr (map (\<lambda>(i, split_data).
                          \<lparr>s_expense_id = e_id expense,
                           s_participant_id = sc_participant_id split_data,
                           s_amount = equal_splits ! i,
                           s_percentage = None\<rparr>)
                        (enumerate 0 splits_data)))
          | CUSTOM_AMOUNT \<Rightarrow>
              (case validate_splits_equal_total (map sc_amount splits_data) (e_amount expense) of
                 Inl e \<Rightarrow>
                   if is_ValueError e then Inl (HTTP_400_BAD_REQUEST (ValueErrorText e))
                   else Inl (Uncaught e)
               | Inr _ \<Rightarrow>
                   Inr (map (\<lambda>split_data.
                          \<lparr>s_expense_id = e_id expense,
                           s_participant_id = sc_participant_id split_data,
                           s_amount = sc_amount split_data,
                           s_percentage = None\<rparr>)
                        splits_data))
          | PERCENTAGE \<Rightarrow>
              (if \<exists>split_data \<in> set splits_data. sc_percentage split_data = None
               then Inl Uncaught_TypeError
               else
                 let total_percentage = sum_list (map (the \<circ> sc_percentage) splits_data)
                 in if \<bar>total_percentage - 100\<bar> > 1 / 100
                    then Inl (HTTP_400_BAD_REQUEST (PercentagesMustSum total_percentage))
                    else
                      Inr (map (\<lambda>split_data.
                             \<lparr>s_expense_id = e_id expense,
                              s_participant_id = sc_participant_id split_data,
                              s_amount = percentage_amount (e_amount expense)
                                           (the (sc_percentage split_data)),
                              s_percentage = sc_percentage split_data\<rparr>)
                           splits_data))))"

section \<open>Creating an expense\<close>





section \<open>Balances\<close>

text \<open>
  One value of the dictionary that \<^verbatim>\<open>calculate_participant_balances\<close> returns.  The
  dictionary itself is an association list in insertion order, as a Python \<^verbatim>\<open>dict\<close>
  is: \<^verbatim>\<open>balances[k] = v\<close> is \<open>AList.update k v\<close> (in place for a key already there,
  appended otherwise) and an update of one key's value is \<open>AList.map_entry\<close>.
\<close>

record Balance =
  b_participant :: Participant
  total_paid :: money
  total_share :: money
  net_balance :: money

type_synonym balances = "(uuid \<times> Balance) list"

text \<open>
  \<^verbatim>\<open>services/balance_service.py: BalanceService.calculate_participant_balances\<close>.
  The three queries are filters over the tables.  The query for the splits joins
  \<^verbatim>\<open>ExpenseSplit\<close> to \<^verbatim>\<open>Expense\<close> on the foreign key and keeps the splits whose expense
  is in the group.
\<close>

definition calculate_participant_balances :: "uuid \<Rightarrow> Session \<Rightarrow> balances" where
  "calculate_participant_balances group_id db =
     (let participants' = filter (\<lambda>p. p_group_id p = group_id) (participants db);
          balances0 = fold (\<lambda>participant balances.
                         AList.update (p_id participant)
                           \<lparr>b_participant = participant, total_paid = 0,
                            total_share = 0, net_balance = 0\<rparr> balances)
                       participants' [];
          expenses' = filter (\<lambda>e. e_group_id e = group_id) (expenses db);
          balances1 = fold (\<lambda>expense balances.
                         if e_payer_id expense \<in> set (map fst balances)
                         then AList.map_entry (e_payer_id expense)
                                (\<lambda>b. b\<lparr>total_paid := total_paid b + e_amount expense\<rparr>) balances
                         else balances)
                       expenses' balances0;
          splits' = filter (\<lambda>s. \<exists>e \<in> set (expenses db).
                                 e_id e = s_expense_id s \<and> e_group_id e = group_id)
                      (expense_splits db);
          balances2 = fold (\<lambda>split balances.
                         if s_participant_id split \<in> set (map fst balances)
                         then AList.map_entry (s_participant_id split)
                                (\<lambda>b. b\<lparr>total_share := total_share b + s_amount split\<rparr>) balances
                         else balances)
                       splits' balances1
      in map (\<lambda>(participant_id, b).
                (participant_id, b\<lparr>net_balance := total_paid b - total_share b\<rparr>))
           balances2)"

text \<open>
  The three loop bodies and the three queries of \<open>calculate_participant_balances\<close>,
  and the splits that belong to one expense, named for the proofs.
\<close>

definition init_step :: "Participant \<Rightarrow> balances \<Rightarrow> balances" where
  "init_step participant balances =
     AList.update (p_id participant)
       \<lparr>b_participant = participant, total_paid = 0, total_share = 0, net_balance = 0\<rparr>
       balances"

definition paid_step :: "Expense \<Rightarrow> balances \<Rightarrow> balances" where
  "paid_step expense balances =
     (if e_payer_id expense \<in> set (map fst balances)
      then AList.map_entry (e_payer_id expense)
             (\<lambda>b. b\<lparr>total_paid := total_paid b + e_amount expense\<rparr>) balances
      else balances)"

definition share_step :: "ExpenseSplit \<Rightarrow> balances \<Rightarrow> balances" where
  "share_step split balances =
     (if s_participant_id split \<in> set (map fst balances)
      then AList.map_entry (s_participant_id split)
             (\<lambda>b. b\<lparr>total_share := total_share b + s_amount split\<rparr>) balances
      else balances)"

definition group_participants :: "uuid \<Rightarrow> Session \<Rightarrow> Participant list" where
  "group_participants group_id db = filter (\<lambda>p. p_group_id p = group_id) (participants db)"

definition group_expenses :: "uuid \<Rightarrow> Session \<Rightarrow> Expense list" where
  "group_expenses group_id db = filter (\<lambda>e. e_group_id e = group_id) (expenses db)"

definition group_splits :: "uuid \<Rightarrow> Session \<Rightarrow> ExpenseSplit list" where
  "group_splits group_id db =
     filter (\<lambda>s. \<exists>e \<in> set (expenses db). e_id e = s_expense_id s \<and> e_group_id e = group_id)
       (expense_splits db)"

definition splits_of :: "Session \<Rightarrow> Expense \<Rightarrow> ExpenseSplit list" where
  "splits_of db expense = filter (\<lambda>s. s_expense_id s = e_id expense) (expense_splits db)"

section \<open>Settlement suggestions\<close>

text \<open>
  An element of the \<^verbatim>\<open>creditors\<close> and \<^verbatim>\<open>debtors\<close> lists (a dictionary with the keys
  \<^verbatim>\<open>id\<close>, \<^verbatim>\<open>name\<close>, \<^verbatim>\<open>amount\<close>), and a settlement.  The settlement's
  \<^verbatim>\<open>description\<close>, a string formatted from the two names and the amount, is left
  out.
\<close>

record Entry =
  en_id :: uuid
  en_name :: string
  en_amount :: money

record Settlement =
  from_participant_id :: uuid
  from_participant_name :: string
  to_participant_id :: uuid
  to_participant_name :: string
  st_amount :: money

text \<open>
  The two-pointer \<^verbatim>\<open>while\<close> loop of \<^verbatim>\<open>generate_settlement_suggestions\<close>, with the
  in-place updates of \<^verbatim>\<open>creditor["amount"]\<close> and \<^verbatim>\<open>debtor["amount"]\<close> as list
  updates.  One of the two remainders is zero after each step, so a pointer moves and
  the loop ends.
\<close>

function settle_loop ::
    "Entry list \<Rightarrow> Entry list \<Rightarrow> nat \<Rightarrow> nat \<Rightarrow> Settlement list \<Rightarrow> Settlement list" where
  "settle_loop creditors debtors i j settlements =
     (if i < length creditors \<and> j < length debtors then
        let creditor = creditors ! i;
            debtor = debtors ! j;
            settle_amount = min (en_amount creditor) (en_amount debtor);
            settlements' = settlements @
              [\<lparr>from_participant_id = en_id debtor,
                from_participant_name = en_name debtor,
                to_participant_id = en_id creditor,
                to_participant_name = en_name creditor,
                st_amount = settle_amount\<rparr>];
            creditor' = creditor\<lparr>en_amount := en_amount creditor - settle_amount\<rparr>;
            debtor' = debtor\<lparr>en_amount := en_amount debtor - settle_amount\<rparr>;
            i' = (if en_amount creditor' < 1 / 100 then i + 1 else i);
            j' = (if en_amount debtor' < 1 / 100 then j + 1 else j)
        in settle_loop (creditors[i := creditor']) (debtors[j := debtor']) i' j' settlements'
      else settlements)"
  by pat_completeness auto
termination
  by (relation "measure (\<lambda>(creditors, debtors, i, j, settlements).
                  (length creditors - i) + (length debtors - j))")
     (auto simp: min_def split: if_splits)

declare settle_loop.simps [simp del]

text \<open>
  \<^verbatim>\<open>BalanceService.generate_settlement_suggestions\<close>.  \<^verbatim>\<open>list.sort\<close> is stable, also
  with \<^verbatim>\<open>reverse=True\<close>; so is \<open>sort_key\<close>, here on the negated amount.
\<close>

definition generate_settlement_suggestions :: "balances \<Rightarrow> Settlement list" where
  "generate_settlement_suggestions balances =
     (let creditors = map (\<lambda>(participant_id, balance_data).
                            \<lparr>en_id = participant_id,
                             en_name = p_name (b_participant balance_data),
                             en_amount = net_balance balance_data\<rparr>)
                        (filter (\<lambda>(participant_id, balance_data).
                                   net_balance balance_data > 1 / 100) balances);
          debtors = map (\<lambda>(participant_id, balance_data).
                            \<lparr>en_id = participant_id,
                             en_name = p_name (b_participant balance_data),
                             en_amount = \<bar>net_balance balance_data\<bar>\<rparr>)
                        (filter (\<lambda>(participant_id, balance_data).
                                   \<not> net_balance balance_data > 1 / 100
                                   \<and> net_balance balance_data < - (1 / 100)) balances);
          creditors' = sort_key (\<lambda>x. - en_amount x) creditors;
          debtors' = sort_key (\<lambda>x. - en_amount x) debtors
      in settle_loop creditors' debtors' 0 0 [])"

text \<open>
  \<^verbatim>\<open>api/balances.py: get_settlement_suggestions\<close>, after the access check: the plan
  for the group's balances, the number of its settlements, and their total, summed
  up from \<^verbatim>\<open>Decimal("0.00")\<close> in the order of the plan.
\<close>

record SettlementSuggestion =
  ss_settlements :: "Settlement list"
  ss_total_transactions :: nat
  ss_total_amount :: money

definition get_settlement_suggestions :: "uuid \<Rightarrow> Session \<Rightarrow> SettlementSuggestion" where
  "get_settlement_suggestions group_id db =
     (let balances = calculate_participant_balances group_id db;
          settlement_data = generate_settlement_suggestions balances;
          total = fold (\<lambda>settlement acc. acc + st_amount settlement) settlement_data 0
      in \<lparr>ss_settlements = settlement_data,
          ss_total_transactions = length settlement_data,
          ss_total_amount = total\<rparr>)"

text \<open>\<^verbatim>\<open>BalanceService.is_group_settled\<close>\<close>

fun is_group_settled :: "balances \<Rightarrow> bool" where
  "is_group_settled [] = True"
| "is_group_settled ((participant_id, balance_data) # rest) =
     (if \<bar>net_balance balance_data\<bar> > 1 / 100 then False else is_group_settled rest)"

text \<open>
  The loop again, on the parts of the two lists from the pointers on: the head of
  each list is the element under the pointer.  It is what the proofs reason about;
  \<open>settle_loop\<close> is shown to compute it.
\<close>

function settle :: "Entry list \<Rightarrow> Entry list \<Rightarrow> Settlement list" where
  "settle [] debtors = []"
| "settle (creditor # creditors) [] = []"
| "settle (creditor # creditors) (debtor # debtors) =
     (let settle_amount = min (en_amount creditor) (en_amount debtor);
          creditor' = creditor\<lparr>en_amount := en_amount creditor - settle_amount\<rparr>;
          debtor' = debtor\<lparr>en_amount := en_amount debtor - settle_amount\<rparr>
      in \<lparr>from_participant_id = en_id debtor,
           from_participant_name = en_name debtor,
           to_participant_id = en_id creditor,
           to_participant_name = en_name creditor,
           st_amount = settle_amount\<rparr>
         # settle (if en_amount creditor' < 1 / 100 then creditors else creditor' # creditors)
                  (if en_amount debtor' < 1 / 100 then debtors else debtor' # debtors))"
  by pat_completeness auto
termination
  by (relation "measure (\<lambda>(creditors, debtors). length creditors + length debtors)")
     (auto simp: min_def split: if_splits)

declare settle.simps(3) [simp del]

text \<open>The \<^verbatim>\<open>creditors\<close> and \<^verbatim>\<open>debtors\<close> lists of
  \<open>generate_settlement_suggestions\<close> before sorting, named for the proofs.\<close>

definition creditors_of :: "balances \<Rightarrow> Entry list" where
  "creditors_of balances =
     map (\<lambda>(participant_id, balance_data).
            \<lparr>en_id = participant_id,
             en_name = p_name (b_participant balance_data),
             en_amount = net_balance balance_data\<rparr>)
         (filter (\<lambda>(participant_id, balance_data).
                    net_balance balance_data > 1 / 100) balances)"

definition debtors_of :: "balances \<Rightarrow> Entry list" where
  "debtors_of balances =
     map (\<lambda>(participant_id, balance_data).
            \<lparr>en_id = participant_id,
             en_name = p_name (b_participant balance_data),
             en_amount = \<bar>net_balance balance_data\<bar>\<rparr>)
         (filter (\<lambda>(participant_id, balance_data).
                    \<not> net_balance balance_data > 1 / 100
                    \<and> net_balance balance_data < - (1 / 100)) balances)"

section \<open>Example data\<close>

definition example_session :: Session where
  "example_session =
     \<lparr>participants = [\<lparr>p_id = 1, p_group_id = 7, p_name = ''A''\<rparr>,
                      \<lparr>p_id = 2, p_group_id = 7, p_name = ''B''\<rparr>,
                      \<lparr>p_id = 3, p_group_id = 7, p_name = ''C''\<rparr>],
      expenses = [\<lparr>e_id = 10, e_group_id = 7, e_amount = 100, e_payer_id = 1,
                    e_split_mode = EQUAL\<rparr>,
                  \<lparr>e_id = 11, e_group_id = 7, e_amount = 30, e_payer_id = 2,
                    e_split_mode = CUSTOM_AMOUNT\<rparr>],
      expense_splits =
        [\<lparr>s_expense_id = 10, s_participant_id = 1, s_amount = 3334 / 100, s_percentage = None\<rparr>,
         \<lparr>s_expense_id = 10, s_participant_id = 2, s_amount = 3333 / 100, s_percentage = None\<rparr>,
         \<lparr>s_expense_id = 10, s_participant_id = 3, s_amount = 3333 / 100, s_percentage = None\<rparr>,
         \<lparr>s_expense_id = 11, s_participant_id = 1, s_amount = 10, s_percentage = None\<rparr>,
         \<lparr>s_expense_id = 11, s_participant_id = 3, s_amount = 20, s_percentage = None\<rparr>]\<rparr>"

definition example_balance :: "uuid \<Rightarrow> string \<Rightarrow> money \<Rightarrow> uuid \<times> Balance" where
  "example_balance k n v =
     (k, \<lparr>b_participant = \<lparr>p_id = k, p_group_id = 7, p_name = n\<rparr>,
          total_paid = 0, total_share = 0, net_balance = v\<rparr>)"

definition example_balances :: balances where
  "example_balances =
     [example_balance 1 ''A'' 50, example_balance 2 ''B'' (- 30), example_balance 3 ''C'' (- 20)]"

section \<open>Properties of rounding and of the context\<close>

lemma round_half_even_of_int: "round_half_even (rat_of_int z) = z"
  by (simp add: round_half_even_def)

lemma round_half_even_cases:
  obtains f :: int where "rat_of_int f \<le> w" "w < rat_of_int f + 1"
    "round_half_even w =
       (if w - rat_of_int f < 1 / 2 then f
        else if 1 / 2 < w - rat_of_int f then f + 1
        else if even f then f else f + 1)"
proof -
  have "rat_of_int \<lfloor>w\<rfloor> \<le> w" "w < rat_of_int \<lfloor>w\<rfloor> + 1"
    by linarith+
  moreover have "round_half_even w =
       (if w - rat_of_int \<lfloor>w\<rfloor> < 1 / 2 then \<lfloor>w\<rfloor>
        else if 1 / 2 < w - rat_of_int \<lfloor>w\<rfloor> then \<lfloor>w\<rfloor> + 1
        else if even \<lfloor>w\<rfloor> then \<lfloor>w\<rfloor> else \<lfloor>w\<rfloor> + 1)"
    by (simp only: round_half_even_def Let_def)
  ultimately show ?thesis
    using that by blast
qed

lemma round_half_even_close: "\<bar>rat_of_int (round_half_even w) - w\<bar> \<le> 1 / 2"
proof -
  obtain f :: int where f: "rat_of_int f \<le> w" "w < rat_of_int f + 1"
    and r: "round_half_even w =
       (if w - rat_of_int f < 1 / 2 then f
        else if 1 / 2 < w - rat_of_int f then f + 1
        else if even f then f else f + 1)"
    by (rule round_half_even_cases)
  show ?thesis
    unfolding r using f by (auto simp: abs_if)
qed

lemma round_half_even_unique:
  assumes "\<bar>w - rat_of_int m\<bar> < 1 / 2"
  shows "round_half_even w = m"
proof -
  have f: "rat_of_int \<lfloor>w\<rfloor> \<le> w" "w < rat_of_int \<lfloor>w\<rfloor> + 1"
    by linarith+
  have c: "\<bar>rat_of_int (round_half_even w) - w\<bar> \<le> 1 / 2"
    by (rule round_half_even_close)
  have "\<bar>rat_of_int (round_half_even w) - rat_of_int m\<bar> < 1"
    using assms c by linarith
  then have "\<bar>rat_of_int (round_half_even w - m)\<bar> < 1"
    by simp
  then have "\<bar>round_half_even w - m\<bar> < 1"
    by (metis of_int_abs of_int_less_1_iff)
  then show ?thesis
    by linarith
qed

lemma round_half_even_tie:
  assumes "\<bar>rat_of_int (round_half_even w) - w\<bar> = 1 / 2"
  shows "even (round_half_even w)"
proof -
  obtain f :: int where f: "rat_of_int f \<le> w" "w < rat_of_int f + 1"
    and r: "round_half_even w =
       (if w - rat_of_int f < 1 / 2 then f
        else if 1 / 2 < w - rat_of_int f then f + 1
        else if even f then f else f + 1)"
    by (rule round_half_even_cases)
  show ?thesis
    using assms f unfolding r by (auto simp: abs_if split: if_splits)
qed

lemma digits_pos: "1 \<le> digits n"
proof (induction n rule: digits.induct)
  case (1 n)
  show ?case
  proof (cases "n < 10")
    case True
    then show ?thesis by (subst digits.simps) simp
  next
    case False
    then show ?thesis using "1.IH" by (subst digits.simps) simp
  qed
qed

lemma digits_upper:
  "n < 10 ^ m \<Longrightarrow> 1 \<le> m \<Longrightarrow> digits n \<le> int m"
proof (induction n arbitrary: m rule: digits.induct)
  case (1 n)
  show ?case
  proof (cases "n < 10")
    case True
    then show ?thesis
      using "1.prems" by (subst digits.simps) simp
  next
    case False
    then have "10 \<le> n" by simp
    obtain k where k: "m = Suc k"
      using "1.prems"(2) by (cases m) auto
    have "k \<noteq> 0"
      using "1.prems"(1) \<open>10 \<le> n\<close> k by (cases k) auto
    then have k1: "1 \<le> k" by simp
    have "n < 10 * 10 ^ k"
      using "1.prems"(1) k by simp
    then have "n div 10 < 10 ^ k"
      by linarith
    then have "digits (n div 10) \<le> int k"
      using "1.IH" [OF False _ k1] by simp
    then show ?thesis
      using False k by (subst digits.simps) simp
  qed
qed

lemma adjusted_upper:
  assumes "\<bar>x\<bar> < 10 ^ m" "1 \<le> m"
  shows "adjusted x \<le> int m - 1"
proof (cases "1 \<le> \<bar>x\<bar>")
  case True
  have "\<bar>x\<bar> < rat_of_int (10 ^ m)"
    using assms(1) by simp
  then have "\<lfloor>\<bar>x\<bar>\<rfloor> < 10 ^ m"
    by (simp only: floor_less_iff)
  then have "digits \<lfloor>\<bar>x\<bar>\<rfloor> \<le> int m"
    using assms(2) by (rule digits_upper)
  then show ?thesis
    using True by (simp add: adjusted_def)
next
  case False
  have "1 \<le> digits (\<lceil>1 / \<bar>x\<bar>\<rceil> - 1)"
    by (rule digits_pos)
  then show ?thesis
    using False assms(2) by (simp add: adjusted_def)
qed

lemma powi_neg_nat: "(10::rat) powi (- int j) = 1 / 10 ^ j"
  by (simp add: power_int_minus field_simps)

lemma context_round_exact:
  assumes z: "x * 10 ^ k = rat_of_int z" and b: "\<bar>x\<bar> < 10 ^ (28 - k)" and k: "k \<le> 27"
  shows "context_round x = Inr x"
proof (cases "x = 0")
  case True
  then show ?thesis by (simp add: context_round_def)
next
  case False
  have a: "adjusted x \<le> int (28 - k) - 1"
    using b k by (intro adjusted_upper) simp_all
  define q where "q = max (adjusted x - 27) Etiny"
  have "q \<le> - int k"
    using a k unfolding q_def Etiny_def by simp
  then have "q = - int (k + nat (- q - int k))"
    by simp
  then obtain j :: nat where j: "q = - int (k + j)" ..
  have p: "(10::rat) powi q = 1 / 10 ^ (k + j)"
    unfolding j by (rule powi_neg_nat)
  have "x / 10 powi q = x * 10 ^ k * 10 ^ j"
    unfolding p by (simp add: power_add)
  also have "\<dots> = rat_of_int (z * 10 ^ j)"
    by (simp add: z)
  finally have d: "x / 10 powi q = rat_of_int (z * 10 ^ j)" .
  have r: "rat_of_int (round_half_even (x / 10 powi q)) * 10 powi q = x"
  proof -
    have "rat_of_int (round_half_even (x / 10 powi q)) = x / 10 powi q"
      unfolding d by (simp only: round_half_even_of_int)
    then show ?thesis
      unfolding p by simp
  qed
  have "adjusted x \<le> Emax"
    using a unfolding Emax_def by simp
  then show ?thesis
    using False r unfolding context_round_def Let_def q_def [symmetric]
    by (simp add: q_def [symmetric])
qed


lemma context_round_error:
  assumes b: "\<bar>x\<bar> < 10 ^ m" and m: "1 \<le> m" "m \<le> 27"
  shows "\<exists>r. context_round x = Inr r \<and> \<bar>r - x\<bar> \<le> 10 powi (int m - 28) / 2"
proof (cases "x = 0")
  case True
  then show ?thesis by (simp add: context_round_def)
next
  case False
  have a: "adjusted x \<le> int m - 1"
    using b m(1) by (rule adjusted_upper)
  define q where "q = max (adjusted x - 27) Etiny"
  define P :: rat where "P = 10 powi q"
  define r where "r = rat_of_int (round_half_even (x / P)) * P"
  have q: "q \<le> int m - 28"
    using a m unfolding q_def Etiny_def by simp
  have P0: "0 < P"
    unfolding P_def by simp
  have PP: "P \<le> 10 powi (int m - 28)"
    unfolding P_def using q by (intro power_int_increasing) simp_all
  have "10 powi (int m - 28) \<le> (10::rat) powi (- 1)"
    using m by (intro power_int_increasing) simp_all
  then have P1: "P \<le> 1 / 10"
    using PP by (simp add: power_int_minus)
  have "\<bar>rat_of_int (round_half_even (x / P)) - x / P\<bar> \<le> 1 / 2"
    by (rule round_half_even_close)
  then have "\<bar>rat_of_int (round_half_even (x / P)) - x / P\<bar> * P \<le> 1 / 2 * P"
    using P0 by (intro mult_right_mono) simp_all
  moreover have "\<bar>rat_of_int (round_half_even (x / P)) - x / P\<bar> * P = \<bar>r - x\<bar>"
  proof -
    have "\<bar>rat_of_int (round_half_even (x / P)) - x / P\<bar> * P
            = \<bar>(rat_of_int (round_half_even (x / P)) - x / P) * P\<bar>"
      using P0 by (simp add: abs_mult)
    also have "(rat_of_int (round_half_even (x / P)) - x / P) * P = r - x"
      using P0 unfolding r_def by (simp add: algebra_simps)
    finally show ?thesis .
  qed
  ultimately have e: "\<bar>r - x\<bar> \<le> P / 2"
    by simp
  then have e': "\<bar>r - x\<bar> \<le> 10 powi (int m - 28) / 2"
    using PP by simp
  have "\<bar>r\<bar> < 10 ^ m + 1"
    using e P1 b by linarith
  also have "\<dots> \<le> (10::rat) ^ Suc m"
  proof -
    have "(1::rat) \<le> 10 ^ m"
      by simp
    then show ?thesis
      unfolding power_Suc by linarith
  qed
  finally have "adjusted r \<le> int (Suc m) - 1"
    by (intro adjusted_upper) simp_all
  then have "\<not> Emax < adjusted r"
    using m unfolding Emax_def by simp
  then have "context_round x = Inr r"
    using False unfolding context_round_def Let_def r_def P_def q_def by simp
  then show ?thesis
    using e' by blast
qed

lemma whole_cents_iff: "whole_cents x \<longleftrightarrow> (\<exists>n::int. x = rat_of_int n / 100)"
proof
  assume "whole_cents x"
  then have w: "rat_of_int \<lfloor>x * 100\<rfloor> = x * 100"
    by (simp only: whole_cents_def)
  have "x = x * 100 / 100"
    by simp
  also have "\<dots> = rat_of_int \<lfloor>x * 100\<rfloor> / 100"
    by (simp only: w)
  finally show "\<exists>n::int. x = rat_of_int n / 100" ..
next
  assume "\<exists>n::int. x = rat_of_int n / 100"
  then obtain n :: int where "x = rat_of_int n / 100" ..
  then have "x * 100 = rat_of_int n"
    by simp
  then show "whole_cents x"
    unfolding whole_cents_def by (simp only: floor_of_int)
qed

lemma context_round_cents:
  assumes "whole_cents x" "\<bar>x\<bar> < 10 ^ 26"
  shows "context_round x = Inr x"
proof -
  obtain n :: int where "x = rat_of_int n / 100"
    using assms(1) unfolding whole_cents_iff by blast
  then have z: "x * 10 ^ 2 = rat_of_int n"
    by simp
  have b: "\<bar>x\<bar> < 10 ^ (28 - 2)"
    using assms(2) by simp
  show ?thesis
    using z b by (rule context_round_exact) simp
qed

lemma whole_cents_add: "whole_cents x \<Longrightarrow> whole_cents y \<Longrightarrow> whole_cents (x + y)"
proof -
  assume "whole_cents x" "whole_cents y"
  then obtain n m :: int where "x = rat_of_int n / 100" "y = rat_of_int m / 100"
    unfolding whole_cents_iff by blast
  then have "x + y = rat_of_int (n + m) / 100"
    by (simp add: add_divide_distrib)
  then show ?thesis
    unfolding whole_cents_iff by blast
qed

lemma whole_cents_diff: "whole_cents x \<Longrightarrow> whole_cents y \<Longrightarrow> whole_cents (x - y)"
proof -
  assume "whole_cents x" "whole_cents y"
  then obtain n m :: int where "x = rat_of_int n / 100" "y = rat_of_int m / 100"
    unfolding whole_cents_iff by blast
  then have "x - y = rat_of_int (n - m) / 100"
    by (simp add: diff_divide_distrib)
  then show ?thesis
    unfolding whole_cents_iff by blast
qed

lemma whole_cents_mult_nat: "whole_cents x \<Longrightarrow> whole_cents (rat_of_nat k * x)"
proof -
  assume "whole_cents x"
  then obtain n :: int where "x = rat_of_int n / 100"
    unfolding whole_cents_iff by blast
  then have "rat_of_nat k * x = rat_of_int (int k * n) / 100"
    by simp
  then show ?thesis
    unfolding whole_cents_iff by blast
qed

lemma whole_cents_quantize: "whole_cents (quantize v 2)"
  unfolding whole_cents_iff quantize_def by auto

lemma dec_add_cents:
  "whole_cents a \<Longrightarrow> whole_cents x \<Longrightarrow> \<bar>a + x\<bar> < 10 ^ 26 \<Longrightarrow> dec_add a x = Inr (a + x)"
  unfolding dec_add_def by (intro context_round_cents whole_cents_add)

lemma dec_sub_cents:
  "whole_cents a \<Longrightarrow> whole_cents x \<Longrightarrow> \<bar>a - x\<bar> < 10 ^ 26 \<Longrightarrow> dec_sub a x = Inr (a - x)"
  unfolding dec_sub_def by (intro context_round_cents whole_cents_diff)

lemma dec_sum_from_exact:
  "whole_cents a \<Longrightarrow> \<forall>x \<in> set xs. whole_cents x
   \<Longrightarrow> \<forall>k \<le> length xs. \<bar>a + sum_list (take k xs)\<bar> < 10 ^ 26
   \<Longrightarrow> dec_sum_from a xs = Inr (a + sum_list xs)"
proof (induction xs arbitrary: a)
  case Nil
  then show ?case by simp
next
  case (Cons x xs)
  have "\<bar>a + sum_list (take (Suc 0) (x # xs))\<bar> < 10 ^ 26"
    using Cons.prems(3) by (metis Suc_leI length_greater_0_conv list.distinct(1))
  then have b: "\<bar>a + x\<bar> < 10 ^ 26"
    by simp
  have add: "dec_add a x = Inr (a + x)"
    using Cons.prems(1,2) b by (intro dec_add_cents) simp_all
  have w: "whole_cents (a + x)"
    using Cons.prems(1,2) by (intro whole_cents_add) simp_all
  have rest: "\<forall>k \<le> length xs. \<bar>(a + x) + sum_list (take k xs)\<bar> < 10 ^ 26"
  proof (intro allI impI)
    fix k
    assume "k \<le> length xs"
    then have "Suc k \<le> length (x # xs)"
      by simp
    then have "\<bar>a + sum_list (take (Suc k) (x # xs))\<bar> < 10 ^ 26"
      using Cons.prems(3) by blast
    then show "\<bar>(a + x) + sum_list (take k xs)\<bar> < 10 ^ 26"
      by (simp add: add.assoc)
  qed
  have "dec_sum_from (a + x) xs = Inr ((a + x) + sum_list xs)"
    using Cons.prems(2) by (intro Cons.IH [OF w _ rest]) simp
  then show ?case
    by (simp add: add add.assoc)
qed

lemma whole_cents_zero: "whole_cents 0"
  by (simp add: whole_cents_def)

lemma dec_sum_replicate:
  assumes "whole_cents b" "rat_of_nat n * \<bar>b\<bar> < 10 ^ 26"
  shows "dec_sum (replicate n b) = Inr (rat_of_nat n * b)"
proof -
  have "\<forall>k \<le> length (replicate n b). \<bar>0 + sum_list (take k (replicate n b))\<bar> < 10 ^ 26"
  proof (intro allI impI)
    fix k
    assume "k \<le> length (replicate n b)"
    then have k: "k \<le> n" by simp
    then have "take k (replicate n b) = replicate k b"
      by (simp add: min_def)
    then have "\<bar>0 + sum_list (take k (replicate n b))\<bar> = rat_of_nat k * \<bar>b\<bar>"
      by (simp add: sum_list_replicate abs_mult)
    also have "\<dots> \<le> rat_of_nat n * \<bar>b\<bar>"
      using k by (intro mult_right_mono) simp_all
    finally show "\<bar>0 + sum_list (take k (replicate n b))\<bar> < 10 ^ 26"
      using assms(2) by simp
  qed
  then have "dec_sum_from 0 (replicate n b) = Inr (0 + sum_list (replicate n b))"
    using assms(1) by (intro dec_sum_from_exact whole_cents_zero) simp_all
  then show ?thesis
    by (simp add: dec_sum_def sum_list_replicate)
qed

lemma dec_sum_nonneg:
  assumes "\<forall>x \<in> set xs. whole_cents x \<and> 0 \<le> x" "sum_list xs < 10 ^ 26"
  shows "dec_sum xs = Inr (sum_list xs)"
proof -
  have "\<forall>k \<le> length xs. \<bar>0 + sum_list (take k xs)\<bar> < 10 ^ 26"
  proof (intro allI impI)
    fix k
    have t: "0 \<le> sum_list (take k xs)"
      using assms(1) by (intro sum_list_nonneg) (auto dest: in_set_takeD)
    have d: "0 \<le> sum_list (drop k xs)"
      using assms(1) by (intro sum_list_nonneg) (auto dest: in_set_dropD)
    have "sum_list xs = sum_list (take k xs) + sum_list (drop k xs)"
      by (metis append_take_drop_id sum_list.append)
    then show "\<bar>0 + sum_list (take k xs)\<bar> < 10 ^ 26"
      using t d assms(2) by simp
  qed
  then have "dec_sum_from 0 xs = Inr (0 + sum_list xs)"
    using assms(1) by (intro dec_sum_from_exact whole_cents_zero) simp_all
  then show ?thesis
    by (simp add: dec_sum_def)
qed

lemma dec_div_then_round:
  assumes w: "whole_cents amount" and b: "\<bar>amount\<bar> < 10 ^ 8" and n: "1 \<le> n" "n \<le> 10 ^ 9"
  shows "\<exists>q. dec_div amount (rat_of_int n) = Inr q
           \<and> round_half_even (q * 10 ^ 2) = round_half_even (amount / rat_of_int n * 10 ^ 2)"
proof -
  define N where "N = rat_of_int n"
  define y where "y = amount / N"
  define z where "z = y * 10 ^ 2"
  define m0 where "m0 = round_half_even z"
  have N1: "1 \<le> N" and N9: "N \<le> 10 ^ 9"
    using n unfolding N_def by simp_all
  have N0: "0 < N"
    using N1 by simp
  have "\<bar>y\<bar> = \<bar>amount\<bar> / N"
    unfolding y_def using N0 by simp
  also have "\<dots> \<le> \<bar>amount\<bar> / 1"
    using N1 by (intro divide_left_mono) simp_all
  finally have yb: "\<bar>y\<bar> < 10 ^ 8"
    using b by simp
  obtain q where q: "context_round y = Inr q" and e: "\<bar>q - y\<bar> \<le> 10 powi (int 8 - 28) / 2"
    using context_round_error [OF yb] by auto
  have e': "\<bar>q - y\<bar> \<le> 1 / (2 * 10 ^ 20)"
  proof -
    have "(10::rat) powi (int 8 - 28) = 10 powi (- int 20)"
      by simp
    also have "\<dots> = 1 / 10 ^ 20"
      by (rule powi_neg_nat)
    finally show ?thesis
      using e by simp
  qed
  have c: "\<bar>rat_of_int m0 - z\<bar> \<le> 1 / 2"
    unfolding m0_def by (rule round_half_even_close)
  have "round_half_even (q * 10 ^ 2) = m0"
  proof (cases "\<bar>rat_of_int m0 - z\<bar> = 1 / 2")
    case True
    then have "z * 2 = rat_of_int (2 * m0 - 1) \<or> z * 2 = rat_of_int (2 * m0 + 1)"
      by (auto simp: abs_if split: if_splits)
    then obtain t :: int where "z * 2 = rat_of_int t"
      by blast
    then have "y * 10 ^ 3 = rat_of_int (5 * t)"
      unfolding z_def by simp
    moreover have "\<bar>y\<bar> < 10 ^ (28 - 3)"
      using yb by simp
    ultimately have "context_round y = Inr y"
      by (rule context_round_exact) simp
    then have "q = y"
      using q by simp
    then show ?thesis
      unfolding m0_def z_def by simp
  next
    case False
    then have lt: "\<bar>rat_of_int m0 - z\<bar> < 1 / 2"
      using c by simp
    obtain cents :: int where cents: "amount = rat_of_int cents / 100"
      using w unfolding whole_cents_iff by blast
    have zc: "z = rat_of_int cents / N"
      unfolding z_def y_def cents by simp
    have "\<bar>rat_of_int m0 - z\<bar> * N = \<bar>(rat_of_int m0 - z) * N\<bar>"
      using N0 by (simp add: abs_mult)
    also have "(rat_of_int m0 - z) * N = rat_of_int (m0 * n - cents)"
      unfolding zc N_def using N0 by (simp add: algebra_simps N_def)
    finally have d: "\<bar>rat_of_int m0 - z\<bar> * N = rat_of_int \<bar>m0 * n - cents\<bar>"
      by simp
    have "\<bar>rat_of_int m0 - z\<bar> * N < 1 / 2 * N"
      using lt N0 by (intro mult_strict_right_mono)
    then have "rat_of_int \<bar>m0 * n - cents\<bar> < 1 / 2 * N"
      by (simp only: d)
    then have "rat_of_int (2 * \<bar>m0 * n - cents\<bar>) < rat_of_int n"
      unfolding N_def by simp
    then have "2 * \<bar>m0 * n - cents\<bar> < n"
      by (simp only: of_int_less_iff)
    then have "2 * \<bar>m0 * n - cents\<bar> \<le> n - 1"
      by simp
    then have "rat_of_int (2 * \<bar>m0 * n - cents\<bar>) \<le> rat_of_int (n - 1)"
      by (simp only: of_int_le_iff)
    then have "2 * rat_of_int \<bar>m0 * n - cents\<bar> \<le> N - 1"
      unfolding N_def by simp
    then have "2 * (\<bar>rat_of_int m0 - z\<bar> * N) \<le> N - 1"
      by (simp only: d)
    then have g: "\<bar>rat_of_int m0 - z\<bar> \<le> 1 / 2 - 1 / (2 * N)"
      using N0 by (simp add: field_simps)
    have "1 / (2 * 10 ^ 9) \<le> 1 / (2 * N)"
      using N0 N9 by (intro divide_left_mono) simp_all
    then have g': "\<bar>rat_of_int m0 - z\<bar> \<le> 1 / 2 - 1 / (2 * 10 ^ 9)"
      using g by linarith
    have "\<bar>q * 10 ^ 2 - z\<bar> = \<bar>q - y\<bar> * 100"
      unfolding z_def by (simp add: abs_if algebra_simps)
    then have h: "\<bar>q * 10 ^ 2 - z\<bar> \<le> 100 / (2 * 10 ^ 20)"
      using e' by simp
    have "\<bar>q * 10 ^ 2 - rat_of_int m0\<bar> \<le> \<bar>q * 10 ^ 2 - z\<bar> + \<bar>rat_of_int m0 - z\<bar>"
      by linarith
    also have "\<dots> \<le> 100 / (2 * 10 ^ 20) + (1 / 2 - 1 / (2 * 10 ^ 9))"
      using h g' by linarith
    also have "\<dots> < 1 / 2"
      by simp
    finally show ?thesis
      by (rule round_half_even_unique)
  qed
  then show ?thesis
    using q unfolding dec_div_def m0_def z_def y_def N_def by simp
qed

section \<open>Properties of the equal split\<close>

lemma int_ge_one_Suc: "1 \<le> (n::int) \<Longrightarrow> \<exists>k. n = int (Suc k)"
  by (rule exI [of _ "nat n - 1"]) simp

lemma split_amount_equally_in_range:
  assumes w: "whole_cents amount" and b: "\<bar>amount\<bar> < 10 ^ 8" and n: "1 \<le> n" "n \<le> 10 ^ 9"
  shows "split_amount_equally amount n =
           Inr ((quantize (amount / rat_of_int n) 2
                   + (amount - rat_of_int n * quantize (amount / rat_of_int n) 2))
                # replicate (nat n - 1) (quantize (amount / rat_of_int n) 2))"
proof -
  define N where "N = rat_of_int n"
  define base where "base = quantize (amount / N) 2"
  define m0 where "m0 = round_half_even (amount / N * 10 ^ 2)"
  obtain k where k: "n = int (Suc k)"
    using int_ge_one_Suc [OF n(1)] by blast
  have N1: "1 \<le> N" and N9: "N \<le> 10 ^ 9" and N0: "0 < N"
    using n unfolding N_def by simp_all
  have Nk: "N = rat_of_nat (Suc k)"
    unfolding N_def k by simp
  obtain q where q: "dec_div amount N = Inr q"
    and r: "round_half_even (q * 10 ^ 2) = m0"
    using dec_div_then_round [OF w b n] unfolding N_def m0_def by blast
  have base: "base = rat_of_int m0 / 100"
    unfolding base_def quantize_def m0_def by simp
  have qb: "quantize q 2 = base"
    unfolding base quantize_def r by simp
  define z where "z = amount / N * 10 ^ 2"
  have "\<bar>z\<bar> = \<bar>amount\<bar> * 100 / N"
    unfolding z_def using N0 by simp
  also have "\<dots> \<le> \<bar>amount\<bar> * 100 / 1"
    using N1 by (intro divide_left_mono) simp_all
  finally have zb: "\<bar>z\<bar> < 10000000000"
    using b by simp
  have "\<bar>rat_of_int m0 - z\<bar> \<le> 1 / 2"
    unfolding m0_def z_def by (rule round_half_even_close)
  then have mb: "\<bar>rat_of_int m0\<bar> < 10000000001"
    using zb by linarith
  then have "rat_of_int \<bar>m0\<bar> < rat_of_int (10 ^ 28)"
    by simp
  then have "\<bar>m0\<bar> < 10 ^ 28"
    by (simp only: of_int_less_iff)
  then have rd: "round_decimal q 2 = Inr base"
    unfolding round_decimal_def r qb by simp
  have wb: "whole_cents base"
    unfolding base_def by (rule whole_cents_quantize)
  have bb: "\<bar>base\<bar> < 10 ^ 9"
    using mb unfolding base by simp
  have "N * \<bar>base\<bar> \<le> 10 ^ 9 * \<bar>base\<bar>"
    using N9 by (intro mult_right_mono) simp_all
  also have "\<dots> < 10 ^ 9 * 10 ^ 9"
    using bb by simp
  finally have nb: "N * \<bar>base\<bar> < 10 ^ 18"
    by simp
  have sum: "dec_sum (replicate (Suc k) base) = Inr (N * base)"
    unfolding Nk using wb nb unfolding Nk by (intro dec_sum_replicate) simp_all
  have wt: "whole_cents (N * base)"
    unfolding Nk using wb by (rule whole_cents_mult_nat)
  have tb: "\<bar>N * base\<bar> < 10 ^ 18"
    using nb N0 by (simp add: abs_mult)
  have b': "\<bar>amount\<bar> < 100000000"
    using b by simp
  have tb': "\<bar>N * base\<bar> < 1000000000000000000"
    using tb by simp
  have bb': "\<bar>base\<bar> < 1000000000"
    using bb by simp
  have "\<bar>amount - N * base\<bar> < 100000000000000000000000000"
    using b' tb' by linarith
  then have sb: "\<bar>amount - N * base\<bar> < 10 ^ 26"
    by simp
  have "\<bar>base + (amount - N * base)\<bar> < 100000000000000000000000000"
    using b' tb' bb' by linarith
  then have ab: "\<bar>base + (amount - N * base)\<bar> < 10 ^ 26"
    by simp
  have sub: "dec_sub amount (N * base) = Inr (amount - N * base)"
    using w wt sb by (rule dec_sub_cents)
  have add: "dec_add base (amount - N * base) = Inr (base + (amount - N * base))"
    using wb whole_cents_diff [OF w wt] ab by (rule dec_add_cents)
  have "split_amount_equally amount (int (Suc k)) =
          Inr ((base + (amount - N * base)) # replicate k base)"
    using q rd sum sub add unfolding split_amount_equally_def N_def k
    by (simp add: Let_def del: of_nat_Suc replicate_Suc)
      (simp add: N_def k)
  then show ?thesis
    unfolding base_def N_def k by simp
qed

lemma sum_list_first_absorbs:
  "sum_list ((b + (amount - (1 + rat_of_nat k) * b)) # replicate k b) = amount"
  by (simp add: sum_list_replicate algebra_simps)

text \<open>
  Claim C4, as stated: for every amount and every \<open>n \<ge> 1\<close> the shares sum exactly to
  the amount.  Beyond the 28 digits of the context they do not: for
  123456789012345678901234567.89 split two ways the quotient, the sum of the shares
  and the corrected first share are each rounded, and the two shares returned sum to
  123456789012345678901234567.87.
\<close>

theorem split_amount_equally_large_amount:
  "split_amount_equally (12345678901234567890123456789 / 100) 2
     = Inr [6172839450617283945061728393 / 100, 6172839450617283945061728394 / 100]
   \<and> (6172839450617283945061728393 / 100 + 6172839450617283945061728394 / 100 :: rat)
       \<noteq> 12345678901234567890123456789 / 100"
  by code_simp

text \<open>
  Claim C4, amended.  For every amount in whole cents below \<open>10 ^ 8\<close> in absolute
  value (the range of a \<^verbatim>\<open>Numeric(10, 2)\<close> column) and every \<open>n\<close> from 1 to \<open>10 ^ 9\<close>,
  the equal split returns exactly \<open>n\<close> shares; the first is the base share plus the
  whole remainder \<open>amount - n * base\<close>, every other share is the base share, and the
  shares sum exactly to the amount.  The base share is \<open>amount / n\<close> rounded half to
  even to two decimals: a whole number of cents nearest to \<open>amount / n\<close>, the even one
  at a tie.  For \<open>n \<le> 0\<close> the call fails, for every amount, with the \<^verbatim>\<open>ValueError\<close>
  "Number of participants must be positive".
\<close>

theorem split_amount_equally_correct:
  "(whole_cents amount \<and> \<bar>amount\<bar> < 10 ^ 8 \<and> 1 \<le> n \<and> n \<le> 10 ^ 9 \<longrightarrow>
      (\<exists>shares base cents.
           split_amount_equally amount n = Inr shares
         \<and> length shares = nat n
         \<and> shares ! 0 = base + (amount - rat_of_int n * base)
         \<and> (\<forall>i. 0 < i \<and> i < nat n \<longrightarrow> shares ! i = base)
         \<and> sum_list shares = amount
         \<and> base = rat_of_int cents / 100
         \<and> \<bar>rat_of_int cents - amount * 100 / rat_of_int n\<bar> \<le> 1 / 2
         \<and> (\<bar>rat_of_int cents - amount * 100 / rat_of_int n\<bar> = 1 / 2 \<longrightarrow> even cents)))
   \<and> (n \<le> 0 \<longrightarrow> split_amount_equally amount n = Inl ParticipantsNotPositive)"
proof (intro conjI impI)
  assume h: "whole_cents amount \<and> \<bar>amount\<bar> < 10 ^ 8 \<and> 1 \<le> n \<and> n \<le> 10 ^ 9"
  define cents where "cents = round_half_even (amount * 100 / rat_of_int n)"
  define base where "base = rat_of_int cents / 100"
  let ?shares = "(base + (amount - rat_of_int n * base)) # replicate (nat n - 1) base"
  have q: "quantize (amount / rat_of_int n) 2 = base"
    unfolding quantize_def base_def cents_def by simp
  have eq: "split_amount_equally amount n = Inr ?shares"
    using split_amount_equally_in_range [of amount n] h unfolding q by blast
  have len: "length ?shares = nat n"
    using h by simp
  have first: "?shares ! 0 = base + (amount - rat_of_int n * base)"
    by simp
  have bd: "base = rat_of_int cents / 100"
    by (simp only: base_def)
  have rest: "\<forall>i. 0 < i \<and> i < nat n \<longrightarrow> ?shares ! i = base"
    by (auto simp: nth_Cons split: nat.splits)
  obtain k where k: "n = int (Suc k)"
    using int_ge_one_Suc [of n] h by blast
  have nk: "nat n - 1 = k"
    unfolding k by simp
  have rn: "rat_of_int n = 1 + rat_of_nat k"
    unfolding k by simp
  have total: "sum_list ?shares = amount"
    by (simp only: nk rn sum_list_first_absorbs)
  have near: "\<bar>rat_of_int cents - amount * 100 / rat_of_int n\<bar> \<le> 1 / 2"
    unfolding cents_def by (rule round_half_even_close)
  have tie: "\<bar>rat_of_int cents - amount * 100 / rat_of_int n\<bar> = 1 / 2 \<longrightarrow> even cents"
    unfolding cents_def using round_half_even_tie by blast
  show "\<exists>shares base cents.
           split_amount_equally amount n = Inr shares
         \<and> length shares = nat n
         \<and> shares ! 0 = base + (amount - rat_of_int n * base)
         \<and> (\<forall>i. 0 < i \<and> i < nat n \<longrightarrow> shares ! i = base)
         \<and> sum_list shares = amount
         \<and> base = rat_of_int cents / 100
         \<and> \<bar>rat_of_int cents - amount * 100 / rat_of_int n\<bar> \<le> 1 / 2
         \<and> (\<bar>rat_of_int cents - amount * 100 / rat_of_int n\<bar> = 1 / 2 \<longrightarrow> even cents)"
    by (intro exI [of _ ?shares] exI [of _ base] exI [of _ cents] conjI
        eq len first rest total bd near tie)
next
  assume "n \<le> 0"
  then show "split_amount_equally amount n = Inl ParticipantsNotPositive"
    by (simp add: split_amount_equally_def)
qed

theorem split_amount_equally_correct_witness:
  "(\<exists>shares base cents.
       split_amount_equally 100 3 = Inr shares \<and> length shares = 3
     \<and> shares ! 0 = base + (100 - 3 * base) \<and> sum_list shares = 100
     \<and> base = rat_of_int cents / 100)
   \<and> split_amount_equally 100 0 = Inl ParticipantsNotPositive"
proof -
  have h: "whole_cents 100 \<and> \<bar>100 :: rat\<bar> < 10 ^ 8 \<and> (1 :: int) \<le> 3 \<and> (3 :: int) \<le> 10 ^ 9"
    by (simp add: whole_cents_def)
  show ?thesis
    using h split_amount_equally_correct [of 100 3] split_amount_equally_correct [of 100 0]
    by auto
qed





section \<open>Properties of the custom-amount and percentage splits\<close>

lemma find_valid_None:
  "(\<forall>s \<in> set splits_data. sc_participant_id s \<in> V)
   \<Longrightarrow> find (\<lambda>pid. pid \<notin> V) (map sc_participant_id splits_data) = None"
  by (simp add: find_None_iff)

text \<open>
  Claim C6, as stated: the custom-amount split succeeds if and only if the provided
  amounts sum exactly to the expense amount.  The validator sums under the context:
  \<open>10 ^ 28\<close> and 0.01 sum to \<open>10 ^ 28\<close> in 28 digits, and the two splits are accepted for
  an expense of \<open>10 ^ 28\<close>.
\<close>

theorem custom_amount_split_rounded_sum:
  "validate_and_create_splits
      \<lparr>e_id = 12, e_group_id = 7, e_amount = 10 ^ 28, e_payer_id = 1,
       e_split_mode = CUSTOM_AMOUNT\<rparr>
      [\<lparr>sc_participant_id = 1, sc_amount = 10 ^ 28, sc_percentage = None\<rparr>,
       \<lparr>sc_participant_id = 2, sc_amount = 1 / 100, sc_percentage = None\<rparr>]
      example_session
     = Inr [\<lparr>s_expense_id = 12, s_participant_id = 1, s_amount = 10 ^ 28,
              s_percentage = None\<rparr>,
            \<lparr>s_expense_id = 12, s_participant_id = 2, s_amount = 1 / 100,
              s_percentage = None\<rparr>]
   \<and> (10 ^ 28 + 1 / 100 :: rat) \<noteq> 10 ^ 28"
  by code_simp

text \<open>
  Claim C6, amended.  For provided amounts that are non-negative, in whole cents
  and sum to less than \<open>10 ^ 26\<close>, and with every split participant in the expense's
  group, the custom-amount split succeeds if and only if the provided amounts sum
  exactly to the expense amount; on success the rows carry exactly the provided
  amounts, for the provided participants; on failure the error (an HTTP 400 whose
  detail is the text of the \<^verbatim>\<open>ValueError\<close>) reports the actual sum and the expected
  total.
\<close>

theorem custom_amount_split:
  assumes "e_split_mode expense = CUSTOM_AMOUNT"
    and "\<forall>s \<in> set splits_data. sc_participant_id s \<in> valid_participant_ids db expense"
    and "\<forall>s \<in> set splits_data. whole_cents (sc_amount s) \<and> 0 \<le> sc_amount s"
    and "sum_list (map sc_amount splits_data) < 10 ^ 26"
  shows "((\<exists>splits. validate_and_create_splits expense splits_data db = Inr splits)
            \<longleftrightarrow> sum_list (map sc_amount splits_data) = e_amount expense)
       \<and> (\<forall>splits. validate_and_create_splits expense splits_data db = Inr splits \<longrightarrow>
             map s_amount splits = map sc_amount splits_data
           \<and> map s_participant_id splits = map sc_participant_id splits_data)
       \<and> (sum_list (map sc_amount splits_data) \<noteq> e_amount expense \<longrightarrow>
             validate_and_create_splits expense splits_data db =
               Inl (HTTP_400_BAD_REQUEST (ValueErrorText
                 (SplitsSumMismatch (sum_list (map sc_amount splits_data)) (e_amount expense)))))"
proof -
  have "dec_sum (map sc_amount splits_data) = Inr (sum_list (map sc_amount splits_data))"
    using assms(3,4) by (intro dec_sum_nonneg) simp_all
  then show ?thesis
    using assms(1) find_valid_None [OF assms(2)]
    by (auto simp: validate_and_create_splits_def validate_splits_equal_total_def comp_def)
qed

theorem custom_amount_split_witness:
  "validate_and_create_splits
      \<lparr>e_id = 12, e_group_id = 7, e_amount = 100, e_payer_id = 1, e_split_mode = CUSTOM_AMOUNT\<rparr>
      [\<lparr>sc_participant_id = 1, sc_amount = 40, sc_percentage = None\<rparr>,
       \<lparr>sc_participant_id = 2, sc_amount = 40, sc_percentage = None\<rparr>]
      example_session
     = Inl (HTTP_400_BAD_REQUEST (ValueErrorText (SplitsSumMismatch 80 100)))"
proof -
  let ?e = "\<lparr>e_id = 12, e_group_id = 7, e_amount = 100, e_payer_id = 1,
              e_split_mode = CUSTOM_AMOUNT\<rparr>"
  let ?d = "[\<lparr>sc_participant_id = 1, sc_amount = 40, sc_percentage = None\<rparr>,
             \<lparr>sc_participant_id = 2, sc_amount = 40, sc_percentage = None\<rparr>]"
  have m: "e_split_mode ?e = CUSTOM_AMOUNT"
    by simp
  have v: "\<forall>s \<in> set ?d. sc_participant_id s \<in> valid_participant_ids example_session ?e"
    by (simp add: valid_participant_ids_def example_session_def)
  have c: "\<forall>s \<in> set ?d. whole_cents (sc_amount s) \<and> 0 \<le> sc_amount s"
    by (simp add: whole_cents_def)
  have b: "sum_list (map sc_amount ?d) < 10 ^ 26"
    by simp
  show ?thesis
    using custom_amount_split [OF m v c b] by simp
qed




text \<open>
  Claim C1.  A percentage split that passes the tolerance check is said to yield
  shares that sum exactly to the expense amount, the first share absorbing any
  drift.  The percentage branch rounds each line and stores it; it has no step that
  absorbs the drift, unlike the equal split.  For 90.00 split 50.00 / 49.99 the
  shares are 45.00 and 44.99, which sum to 89.99.
\<close>

theorem percentage_split_drift:
  "validate_and_create_splits
      \<lparr>e_id = 12, e_group_id = 7, e_amount = 90, e_payer_id = 1, e_split_mode = PERCENTAGE\<rparr>
      [\<lparr>sc_participant_id = 1, sc_amount = 45, sc_percentage = Some 50\<rparr>,
       \<lparr>sc_participant_id = 2, sc_amount = 45, sc_percentage = Some (4999 / 100)\<rparr>]
      example_session
     = Inr [\<lparr>s_expense_id = 12, s_participant_id = 1, s_amount = 45,
              s_percentage = Some 50\<rparr>,
            \<lparr>s_expense_id = 12, s_participant_id = 2, s_amount = 4499 / 100,
              s_percentage = Some (4999 / 100)\<rparr>]
   \<and> (45 :: rat) + 4499 / 100 = 8999 / 100"
  by code_simp


section \<open>Properties of the balances\<close>

lemma calculate_participant_balances_steps:
  "calculate_participant_balances group_id db =
     map (\<lambda>(participant_id, b).
            (participant_id, b\<lparr>net_balance := total_paid b - total_share b\<rparr>))
       (fold share_step (group_splits group_id db)
          (fold paid_step (group_expenses group_id db)
             (fold init_step (group_participants group_id db) [])))"
  unfolding calculate_participant_balances_def Let_def group_splits_def group_expenses_def
    group_participants_def
  by (simp add: init_step_def [abs_def] paid_step_def [abs_def] share_step_def [abs_def])

lemma sum_map_entry:
  assumes "distinct (map fst d)" "k \<in> fst ` set d" "\<And>b. g (f b) = g b + (x::rat)"
  shows "sum_list (map (g \<circ> snd) (AList.map_entry k f d)) = sum_list (map (g \<circ> snd) d) + x"
  using assms(1,2)
proof (induction d)
  case Nil
  then show ?case by simp
next
  case (Cons p d)
  show ?case
  proof (cases "fst p = k")
    case True
    then show ?thesis
      by (cases p) (simp add: assms(3))
  next
    case False
    then have "k \<in> fst ` set d" "distinct (map fst d)"
      using Cons.prems by auto
    then show ?thesis
      using Cons.IH False by (cases p) simp
  qed
qed

lemma sum_map_entry_same:
  assumes "\<And>b. g (f b) = (g b :: rat)"
  shows "sum_list (map (g \<circ> snd) (AList.map_entry k f d)) = sum_list (map (g \<circ> snd) d)"
  by (induction d) (auto simp: assms)

lemma keys_map_entry: "map fst (AList.map_entry k f d) = map fst d"
  by (induction d) auto


lemma init_distinct:
  "distinct (map fst d) \<Longrightarrow> distinct (map fst (fold init_step ps d))"
  by (induction ps arbitrary: d) (simp_all add: init_step_def distinct_update)

lemma init_keys:
  "fst ` set (fold init_step ps d) = fst ` set d \<union> p_id ` set ps"
  by (induction ps arbitrary: d) (auto simp: init_step_def dom_update)

lemma update_values: "(k', b) \<in> set (AList.update k v d) \<Longrightarrow> (k', b) \<in> set d \<or> b = v"
  by (induction d) (auto split: if_splits)

lemma init_zero:
  "(\<forall>(k, b) \<in> set d. total_paid b = 0 \<and> total_share b = 0)
   \<Longrightarrow> \<forall>(k, b) \<in> set (fold init_step ps d). total_paid b = 0 \<and> total_share b = 0"
proof (induction ps arbitrary: d)
  case Nil
  then show ?case by simp
next
  case (Cons p ps)
  have "\<forall>(k, b) \<in> set (init_step p d). total_paid b = 0 \<and> total_share b = 0"
    using Cons.prems update_values unfolding init_step_def by fastforce
  then show ?case
    using Cons.IH by simp
qed

lemma sum_zero:
  "(\<forall>(k, b) \<in> set d. total_paid b = 0 \<and> total_share b = 0)
   \<Longrightarrow> sum_list (map (total_paid \<circ> snd) d) = 0 \<and> sum_list (map (total_share \<circ> snd) d) = 0"
  by (induction d) auto

lemma paid_step_keys: "map fst (paid_step e d) = map fst d"
  by (simp add: paid_step_def keys_map_entry)

lemma share_step_keys: "map fst (share_step s d) = map fst d"
  by (simp add: share_step_def keys_map_entry)

lemma fold_paid_keys: "map fst (fold paid_step es d) = map fst d"
  by (induction es arbitrary: d) (simp_all add: paid_step_keys)

lemma fold_share_keys: "map fst (fold share_step ss d) = map fst d"
  by (induction ss arbitrary: d) (simp_all add: share_step_keys)

lemma paid_step_paid:
  "distinct (map fst d) \<Longrightarrow> e_payer_id e \<in> fst ` set d
   \<Longrightarrow> sum_list (map (total_paid \<circ> snd) (paid_step e d))
       = sum_list (map (total_paid \<circ> snd) d) + e_amount e"
  unfolding paid_step_def by (simp add: sum_map_entry)

lemma paid_step_share:
  "sum_list (map (total_share \<circ> snd) (paid_step e d)) = sum_list (map (total_share \<circ> snd) d)"
  unfolding paid_step_def by (simp add: sum_map_entry_same)

lemma share_step_share:
  "distinct (map fst d) \<Longrightarrow> s_participant_id s \<in> fst ` set d
   \<Longrightarrow> sum_list (map (total_share \<circ> snd) (share_step s d))
       = sum_list (map (total_share \<circ> snd) d) + s_amount s"
  unfolding share_step_def by (simp add: sum_map_entry)

lemma share_step_paid:
  "sum_list (map (total_paid \<circ> snd) (share_step s d)) = sum_list (map (total_paid \<circ> snd) d)"
  unfolding share_step_def by (simp add: sum_map_entry_same)

lemma fold_paid_paid:
  "distinct (map fst d) \<Longrightarrow> \<forall>e \<in> set es. e_payer_id e \<in> fst ` set d
   \<Longrightarrow> sum_list (map (total_paid \<circ> snd) (fold paid_step es d))
       = sum_list (map (total_paid \<circ> snd) d) + sum_list (map e_amount es)"
proof (induction es arbitrary: d)
  case Nil
  then show ?case by simp
next
  case (Cons e es)
  have k: "map fst (paid_step e d) = map fst d"
    by (rule paid_step_keys)
  have d': "distinct (map fst (paid_step e d))"
    using Cons.prems(1) by (simp only: k)
  have "fst ` set (paid_step e d) = fst ` set d"
    using k by (metis set_map)
  then have p': "\<forall>e' \<in> set es. e_payer_id e' \<in> fst ` set (paid_step e d)"
    using Cons.prems(2) by simp
  have "sum_list (map (total_paid \<circ> snd) (fold paid_step es (paid_step e d)))
          = sum_list (map (total_paid \<circ> snd) (paid_step e d)) + sum_list (map e_amount es)"
    by (rule Cons.IH [OF d' p'])
  also have "\<dots> = sum_list (map (total_paid \<circ> snd) d) + e_amount e + sum_list (map e_amount es)"
    using paid_step_paid [of d e] Cons.prems by simp
  finally show ?case
    by (simp add: algebra_simps comp_def)
qed

lemma fold_paid_share:
  "sum_list (map (total_share \<circ> snd) (fold paid_step es d)) = sum_list (map (total_share \<circ> snd) d)"
  by (induction es arbitrary: d) (simp_all add: paid_step_share)

lemma fold_share_share:
  "distinct (map fst d) \<Longrightarrow> \<forall>s \<in> set ss. s_participant_id s \<in> fst ` set d
   \<Longrightarrow> sum_list (map (total_share \<circ> snd) (fold share_step ss d))
       = sum_list (map (total_share \<circ> snd) d) + sum_list (map s_amount ss)"
proof (induction ss arbitrary: d)
  case Nil
  then show ?case by simp
next
  case (Cons s ss)
  have k: "map fst (share_step s d) = map fst d"
    by (rule share_step_keys)
  have d': "distinct (map fst (share_step s d))"
    using Cons.prems(1) by (simp only: k)
  have "fst ` set (share_step s d) = fst ` set d"
    using k by (metis set_map)
  then have p': "\<forall>s' \<in> set ss. s_participant_id s' \<in> fst ` set (share_step s d)"
    using Cons.prems(2) by simp
  have "sum_list (map (total_share \<circ> snd) (fold share_step ss (share_step s d)))
          = sum_list (map (total_share \<circ> snd) (share_step s d)) + sum_list (map s_amount ss)"
    by (rule Cons.IH [OF d' p'])
  also have "\<dots> = sum_list (map (total_share \<circ> snd) d) + s_amount s + sum_list (map s_amount ss)"
    using share_step_share [of d s] Cons.prems by simp
  finally show ?case
    by (simp add: algebra_simps comp_def)
qed

lemma fold_share_paid:
  "sum_list (map (total_paid \<circ> snd) (fold share_step ss d)) = sum_list (map (total_paid \<circ> snd) d)"
  by (induction ss arbitrary: d) (simp_all add: share_step_paid)

lemma net_sum:
  "sum_list (map (net_balance \<circ> snd)
      (map (\<lambda>(participant_id, b).
              (participant_id, b\<lparr>net_balance := total_paid b - total_share b\<rparr>)) d))
   = sum_list (map (total_paid \<circ> snd) d) - sum_list (map (total_share \<circ> snd) d)"
  by (induction d) auto

lemma sum_filter_disj:
  "(\<forall>x \<in> set xs. \<not> (A x \<and> B x))
   \<Longrightarrow> sum_list (map f (filter (\<lambda>x. A x \<or> B x) xs))
       = (sum_list (map f (filter A xs)) + sum_list (map f (filter B xs)) :: rat)"
  by (induction xs) auto

lemma join_sum:
  "distinct (map e_id G)
   \<Longrightarrow> sum_list (map s_amount
         (filter (\<lambda>s. \<exists>e \<in> set G. e_id e = s_expense_id s \<and> P e) S))
       = sum_list (map (\<lambda>e. sum_list (map s_amount (filter (\<lambda>s. s_expense_id s = e_id e) S)))
           (filter P G))"
proof (induction G)
  case Nil
  then show ?case by simp
next
  case (Cons e G)
  let ?A = "\<lambda>s. e_id e = s_expense_id s \<and> P e"
  let ?B = "\<lambda>s. \<exists>e' \<in> set G. e_id e' = s_expense_id s \<and> P e'"
  have notin: "e_id e \<notin> e_id ` set G" and dG: "distinct (map e_id G)"
    using Cons.prems by auto
  have excl: "\<forall>s \<in> set S. \<not> (?A s \<and> ?B s)"
    using notin by force
  have "filter (\<lambda>s. \<exists>e' \<in> set (e # G). e_id e' = s_expense_id s \<and> P e') S
          = filter (\<lambda>s. ?A s \<or> ?B s) S"
    by (rule filter_cong) auto
  then have "sum_list (map s_amount
         (filter (\<lambda>s. \<exists>e' \<in> set (e # G). e_id e' = s_expense_id s \<and> P e') S))
       = sum_list (map s_amount (filter ?A S)) + sum_list (map s_amount (filter ?B S))"
    using sum_filter_disj [OF excl] by simp
  moreover have "sum_list (map s_amount (filter ?A S))
       = (if P e then sum_list (map s_amount (filter (\<lambda>s. s_expense_id s = e_id e) S)) else 0)"
    by (auto intro!: arg_cong [where f = sum_list] arg_cong [where f = "map s_amount"] filter_cong)
  ultimately show ?case
    using Cons.IH [OF dG] by simp
qed

lemma map_entry_values:
  "distinct (map fst d) \<Longrightarrow> (k, b) \<in> set (AList.map_entry k' f d)
   \<Longrightarrow> \<exists>b0. (k, b0) \<in> set d \<and> b = (if k = k' then f b0 else b0)"
proof (induction d)
  case Nil
  then show ?case by simp
next
  case (Cons p d)
  obtain k0 v0 where p: "p = (k0, v0)" by (cases p)
  show ?case
  proof (cases "k0 = k'")
    case True
    then have "k' \<notin> fst ` set d"
      using Cons.prems(1) p by auto
    then show ?thesis
      using Cons.prems(2) p True by (auto simp: image_iff)
  next
    case False
    then have "(k, b) = p \<or> (k, b) \<in> set (AList.map_entry k' f d)"
      using Cons.prems(2) p by auto
    then show ?thesis
    proof
      assume "(k, b) = p"
      then have "(k, b) \<in> set (p # d)" "k \<noteq> k'"
        using False p by auto
      then show ?thesis
        by (intro exI [of _ b]) simp
    next
      assume "(k, b) \<in> set (AList.map_entry k' f d)"
      moreover have "distinct (map fst d)"
        using Cons.prems(1) by simp
      ultimately obtain b0 where "(k, b0) \<in> set d" "b = (if k = k' then f b0 else b0)"
        using Cons.IH by blast
      then show ?thesis
        by (intro exI [of _ b0]) simp
    qed
  qed
qed

lemma paid_step_values:
  assumes "distinct (map fst d)" "(k, b) \<in> set (paid_step e d)"
  shows "\<exists>b0. (k, b0) \<in> set d
           \<and> total_paid b = total_paid b0 + (if e_payer_id e = k then e_amount e else 0)
           \<and> total_share b = total_share b0 \<and> b_participant b = b_participant b0"
proof (cases "e_payer_id e \<in> set (map fst d)")
  case True
  then have "(k, b) \<in> set (AList.map_entry (e_payer_id e)
                (\<lambda>b. b\<lparr>total_paid := total_paid b + e_amount e\<rparr>) d)"
    using assms(2) by (simp add: paid_step_def)
  then obtain b0 where "(k, b0) \<in> set d"
    "b = (if k = e_payer_id e then b0\<lparr>total_paid := total_paid b0 + e_amount e\<rparr> else b0)"
    using map_entry_values [OF assms(1)] by blast
  then show ?thesis
    by (intro exI [of _ b0]) auto
next
  case False
  then have "(k, b) \<in> set d"
    using assms(2) by (simp add: paid_step_def)
  moreover have "e_payer_id e \<noteq> k"
    using False calculation by (auto simp: image_iff)
  ultimately show ?thesis
    by (intro exI [of _ b]) simp
qed

lemma share_step_values:
  assumes "distinct (map fst d)" "(k, b) \<in> set (share_step s d)"
  shows "\<exists>b0. (k, b0) \<in> set d
           \<and> total_share b = total_share b0 + (if s_participant_id s = k then s_amount s else 0)
           \<and> total_paid b = total_paid b0 \<and> b_participant b = b_participant b0"
proof (cases "s_participant_id s \<in> set (map fst d)")
  case True
  then have "(k, b) \<in> set (AList.map_entry (s_participant_id s)
                (\<lambda>b. b\<lparr>total_share := total_share b + s_amount s\<rparr>) d)"
    using assms(2) by (simp add: share_step_def)
  then obtain b0 where "(k, b0) \<in> set d"
    "b = (if k = s_participant_id s then b0\<lparr>total_share := total_share b0 + s_amount s\<rparr> else b0)"
    using map_entry_values [OF assms(1)] by blast
  then show ?thesis
    by (intro exI [of _ b0]) auto
next
  case False
  then have "(k, b) \<in> set d"
    using assms(2) by (simp add: share_step_def)
  moreover have "s_participant_id s \<noteq> k"
    using False calculation by (auto simp: image_iff)
  ultimately show ?thesis
    by (intro exI [of _ b]) simp
qed

lemma fold_paid_values:
  "distinct (map fst d) \<Longrightarrow> (k, b) \<in> set (fold paid_step es d)
   \<Longrightarrow> \<exists>b0. (k, b0) \<in> set d
         \<and> total_paid b = total_paid b0
              + sum_list (map e_amount (filter (\<lambda>e. e_payer_id e = k) es))
         \<and> total_share b = total_share b0 \<and> b_participant b = b_participant b0"
proof (induction es arbitrary: d)
  case Nil
  then show ?case by auto
next
  case (Cons e es)
  have d': "distinct (map fst (paid_step e d))"
    using Cons.prems(1) by (simp only: paid_step_keys)
  obtain b1 where b1: "(k, b1) \<in> set (paid_step e d)"
    "total_paid b = total_paid b1 + sum_list (map e_amount (filter (\<lambda>e. e_payer_id e = k) es))"
    "total_share b = total_share b1" "b_participant b = b_participant b1"
    using Cons.IH [OF d'] Cons.prems(2) by auto
  obtain b0 where "(k, b0) \<in> set d"
    "total_paid b1 = total_paid b0 + (if e_payer_id e = k then e_amount e else 0)"
    "total_share b1 = total_share b0" "b_participant b1 = b_participant b0"
    using paid_step_values [OF Cons.prems(1) b1(1)] by blast
  then show ?case
    using b1 by (intro exI [of _ b0]) auto
qed

lemma fold_share_values:
  "distinct (map fst d) \<Longrightarrow> (k, b) \<in> set (fold share_step ss d)
   \<Longrightarrow> \<exists>b0. (k, b0) \<in> set d
         \<and> total_share b = total_share b0
              + sum_list (map s_amount (filter (\<lambda>s. s_participant_id s = k) ss))
         \<and> total_paid b = total_paid b0 \<and> b_participant b = b_participant b0"
proof (induction ss arbitrary: d)
  case Nil
  then show ?case by auto
next
  case (Cons s ss)
  have d': "distinct (map fst (share_step s d))"
    using Cons.prems(1) by (simp only: share_step_keys)
  obtain b1 where b1: "(k, b1) \<in> set (share_step s d)"
    "total_share b = total_share b1
       + sum_list (map s_amount (filter (\<lambda>s. s_participant_id s = k) ss))"
    "total_paid b = total_paid b1" "b_participant b = b_participant b1"
    using Cons.IH [OF d'] Cons.prems(2) by auto
  obtain b0 where "(k, b0) \<in> set d"
    "total_share b1 = total_share b0 + (if s_participant_id s = k then s_amount s else 0)"
    "total_paid b1 = total_paid b0" "b_participant b1 = b_participant b0"
    using share_step_values [OF Cons.prems(1) b1(1)] by blast
  then show ?case
    using b1 by (intro exI [of _ b0]) auto
qed

lemma update_entries:
  "(k', b) \<in> set (AList.update k v d) \<Longrightarrow> (k', b) \<in> set d \<or> (k' = k \<and> b = v)"
  by (induction d) (auto split: if_splits)

lemma init_entries:
  "(\<forall>(k, b) \<in> set d. total_paid b = 0 \<and> total_share b = 0
       \<and> p_id (b_participant b) = k \<and> b_participant b \<in> A)
   \<Longrightarrow> set ps \<subseteq> A
   \<Longrightarrow> \<forall>(k, b) \<in> set (fold init_step ps d). total_paid b = 0 \<and> total_share b = 0
         \<and> p_id (b_participant b) = k \<and> b_participant b \<in> A"
proof (induction ps arbitrary: d)
  case Nil
  then show ?case by simp
next
  case (Cons p ps)
  have "\<forall>(k, b) \<in> set (init_step p d). total_paid b = 0 \<and> total_share b = 0
         \<and> p_id (b_participant b) = k \<and> b_participant b \<in> A"
  proof (clarify)
    fix k b
    assume "(k, b) \<in> set (init_step p d)"
    then have "(k, b) \<in> set d
       \<or> (k = p_id p \<and> b = \<lparr>b_participant = p, total_paid = 0, total_share = 0, net_balance = 0\<rparr>)"
      unfolding init_step_def by (rule update_entries)
    then show "total_paid b = 0 \<and> total_share b = 0
         \<and> p_id (b_participant b) = k \<and> b_participant b \<in> A"
      using Cons.prems by auto
  qed
  then show ?case
    using Cons.IH Cons.prems(2) by simp
qed

text \<open>
  Claim C2.  For every group in which the split amounts of each expense sum exactly
  to the expense's amount, and in which every payer and every split participant is
  one of the group's participants, \<open>calculate_participant_balances\<close> returns one row
  for each participant of the group; the row's \<open>total_paid\<close> is the sum of the amounts
  of the group's expenses that the participant paid, its \<open>total_share\<close> the sum of the
  amounts of the group's splits of that participant, its \<open>net_balance\<close> their
  difference; and the net balances sum to exactly zero across the participants.
  Expense identifiers are a primary key, so no two expense rows share one.
\<close>

theorem balances_conserved:
  assumes inv1: "\<forall>e \<in> set (group_expenses group_id db).
                    sum_list (map s_amount (splits_of db e)) = e_amount e"
    and keys: "distinct (map e_id (expenses db))"
    and payers: "\<forall>e \<in> set (group_expenses group_id db).
                    e_payer_id e \<in> p_id ` set (group_participants group_id db)"
    and parts: "\<forall>s \<in> set (group_splits group_id db).
                    s_participant_id s \<in> p_id ` set (group_participants group_id db)"
  shows "distinct (map fst (calculate_participant_balances group_id db))
       \<and> fst ` set (calculate_participant_balances group_id db)
           = p_id ` set (group_participants group_id db)
       \<and> (\<forall>(participant_id, b) \<in> set (calculate_participant_balances group_id db).
            p_id (b_participant b) = participant_id
          \<and> b_participant b \<in> set (group_participants group_id db)
          \<and> total_paid b = sum_list (map e_amount
               (filter (\<lambda>e. e_payer_id e = participant_id) (group_expenses group_id db)))
          \<and> total_share b = sum_list (map s_amount
               (filter (\<lambda>s. s_participant_id s = participant_id) (group_splits group_id db)))
          \<and> net_balance b = total_paid b - total_share b)
       \<and> sum_list (map (net_balance \<circ> snd) (calculate_participant_balances group_id db)) = 0"
proof -
  let ?d0 = "fold init_step (group_participants group_id db) []"
  let ?d1 = "fold paid_step (group_expenses group_id db) ?d0"
  let ?d2 = "fold share_step (group_splits group_id db) ?d1"
  have dist0: "distinct (map fst ?d0)"
    by (rule init_distinct) simp
  have keys0: "fst ` set ?d0 = p_id ` set (group_participants group_id db)"
    by (simp add: init_keys)
  have zero0: "sum_list (map (total_paid \<circ> snd) ?d0) = 0"
    "sum_list (map (total_share \<circ> snd) ?d0) = 0"
    using sum_zero [OF init_zero [of "[]" "group_participants group_id db"]] by simp_all
  have paid1: "sum_list (map (total_paid \<circ> snd) ?d1)
                 = sum_list (map e_amount (group_expenses group_id db))"
    using fold_paid_paid [OF dist0, of "group_expenses group_id db"] payers keys0 zero0(1)
    by simp
  have share1: "sum_list (map (total_share \<circ> snd) ?d1) = 0"
    using fold_paid_share [of "group_expenses group_id db" ?d0] zero0(2) by simp
  have k1: "map fst ?d1 = map fst ?d0"
    by (rule fold_paid_keys)
  have dist1: "distinct (map fst ?d1)"
    using dist0 by (simp only: k1)
  have keys1: "fst ` set ?d1 = p_id ` set (group_participants group_id db)"
    using k1 keys0 by (metis set_map)
  have share2: "sum_list (map (total_share \<circ> snd) ?d2)
                 = sum_list (map s_amount (group_splits group_id db))"
    using fold_share_share [OF dist1, of "group_splits group_id db"] parts keys1 share1
    by simp
  have paid2: "sum_list (map (total_paid \<circ> snd) ?d2)
                 = sum_list (map e_amount (group_expenses group_id db))"
    using fold_share_paid [of "group_splits group_id db" ?d1] paid1 by simp
  have "sum_list (map s_amount (group_splits group_id db))
          = sum_list (map (\<lambda>e. sum_list (map s_amount (splits_of db e)))
              (group_expenses group_id db))"
    unfolding group_splits_def group_expenses_def splits_of_def
    by (rule join_sum [OF keys])
  also have "\<dots> = sum_list (map e_amount (group_expenses group_id db))"
    using inv1 by (intro arg_cong [where f = sum_list] map_cong) simp_all
  finally have join: "sum_list (map s_amount (group_splits group_id db))
          = sum_list (map e_amount (group_expenses group_id db))" .
  have k2: "map fst ?d2 = map fst ?d1"
    by (rule fold_share_keys)
  have kB: "map fst (calculate_participant_balances group_id db) = map fst ?d2"
    unfolding calculate_participant_balances_steps by (simp add: comp_def case_prod_unfold)
  have distB: "distinct (map fst (calculate_participant_balances group_id db))"
    using dist1 by (simp only: kB k2)
  have "set (map fst (calculate_participant_balances group_id db)) = set (map fst ?d0)"
    by (simp only: kB k2 k1)
  then have keysB: "fst ` set (calculate_participant_balances group_id db)
           = p_id ` set (group_participants group_id db)"
    using keys0 by simp
  have init: "\<forall>(k, b) \<in> set ?d0. total_paid b = 0 \<and> total_share b = 0
         \<and> p_id (b_participant b) = k \<and> b_participant b \<in> set (group_participants group_id db)"
    by (rule init_entries) simp_all
  have rows: "\<forall>(participant_id, b) \<in> set (calculate_participant_balances group_id db).
            p_id (b_participant b) = participant_id
          \<and> b_participant b \<in> set (group_participants group_id db)
          \<and> total_paid b = sum_list (map e_amount
               (filter (\<lambda>e. e_payer_id e = participant_id) (group_expenses group_id db)))
          \<and> total_share b = sum_list (map s_amount
               (filter (\<lambda>s. s_participant_id s = participant_id) (group_splits group_id db)))
          \<and> net_balance b = total_paid b - total_share b"
  proof (clarify)
    fix k b
    assume "(k, b) \<in> set (calculate_participant_balances group_id db)"
    then obtain b2 where b2: "(k, b2) \<in> set ?d2"
      and b: "b = b2\<lparr>net_balance := total_paid b2 - total_share b2\<rparr>"
      unfolding calculate_participant_balances_steps by auto
    obtain b1 where b1: "(k, b1) \<in> set ?d1"
      and s2: "total_share b2 = total_share b1
          + sum_list (map s_amount
              (filter (\<lambda>s. s_participant_id s = k) (group_splits group_id db)))"
      and p2: "total_paid b2 = total_paid b1" and q2: "b_participant b2 = b_participant b1"
      using fold_share_values [OF dist1 b2] by blast
    obtain b0 where b0: "(k, b0) \<in> set ?d0"
      and p1: "total_paid b1 = total_paid b0
          + sum_list (map e_amount
              (filter (\<lambda>e. e_payer_id e = k) (group_expenses group_id db)))"
      and s1: "total_share b1 = total_share b0" and q1: "b_participant b1 = b_participant b0"
      using fold_paid_values [OF dist0 b1] by blast
    have z: "total_paid b0 = 0" "total_share b0 = 0" "p_id (b_participant b0) = k"
      "b_participant b0 \<in> set (group_participants group_id db)"
      using init b0 by auto
    show "p_id (b_participant b) = k
          \<and> b_participant b \<in> set (group_participants group_id db)
          \<and> total_paid b = sum_list (map e_amount
               (filter (\<lambda>e. e_payer_id e = k) (group_expenses group_id db)))
          \<and> total_share b = sum_list (map s_amount
               (filter (\<lambda>s. s_participant_id s = k) (group_splits group_id db)))
          \<and> net_balance b = total_paid b - total_share b"
      unfolding b using s2 p2 q2 p1 s1 q1 z by simp
  qed
  have "sum_list (map (net_balance \<circ> snd) (calculate_participant_balances group_id db)) = 0"
    unfolding calculate_participant_balances_steps net_sum
    using paid2 share2 join by simp
  with distB keysB rows show ?thesis
    by blast
qed

theorem balances_conserved_witness:
  "distinct (map e_id (expenses example_session))
   \<and> fst ` set (calculate_participant_balances 7 example_session) = {1, 2, 3}
   \<and> sum_list (map (net_balance \<circ> snd) (calculate_participant_balances 7 example_session)) = 0"
proof -
  have inv1: "\<forall>e \<in> set (group_expenses 7 example_session).
       sum_list (map s_amount (splits_of example_session e)) = e_amount e"
    by (simp add: group_expenses_def splits_of_def example_session_def)
  have keys: "distinct (map e_id (expenses example_session))"
    by (simp add: example_session_def)
  have payers: "\<forall>e \<in> set (group_expenses 7 example_session).
         e_payer_id e \<in> p_id ` set (group_participants 7 example_session)"
    by (simp add: group_expenses_def group_participants_def example_session_def)
  have parts: "\<forall>s \<in> set (group_splits 7 example_session).
         s_participant_id s \<in> p_id ` set (group_participants 7 example_session)"
    by (simp add: group_splits_def group_participants_def example_session_def)
  have ids: "p_id ` set (group_participants 7 example_session) = {1, 2, 3}"
    by (auto simp: group_participants_def example_session_def)
  show ?thesis
    using keys ids balances_conserved [OF inv1 keys payers parts] by simp
qed

section \<open>Properties of the settled check\<close>

text \<open>
  Claim C8.  \<open>is_group_settled\<close> holds for a balance mapping if and only if every
  participant's absolute net balance is at most 0.01.  In particular the balances
  \<open>{A: +0.01, B: -0.01}\<close> are settled and \<open>{A: +0.02, B: -0.02}\<close> are not.
\<close>

theorem is_group_settled_iff:
  "is_group_settled balances \<longleftrightarrow> (\<forall>(participant_id, b) \<in> set balances. \<bar>net_balance b\<bar> \<le> 1 / 100)"
  by (induction balances rule: is_group_settled.induct) auto

theorem is_group_settled_iff_witness: "is_group_settled [example_balance 1 ''A'' (1 / 100), example_balance 2 ''B'' (- (1 / 100))]
   \<and> \<not> is_group_settled [example_balance 1 ''A'' (2 / 100), example_balance 2 ''B'' (- (2 / 100))]"
  using is_group_settled_iff [of "[example_balance 1 ''A'' (1 / 100), example_balance 2 ''B'' (- (1 / 100))]"]
   is_group_settled_iff [of "[example_balance 1 ''A'' (2 / 100), example_balance 2 ''B'' (- (2 / 100))]"]
  by (simp add: example_balance_def)

section \<open>Properties of the settlement plan\<close>

lemma settle_loop_settle:
  "settle_loop creditors debtors i j settlements
     = settlements @ settle (drop i creditors) (drop j debtors)"
proof (induction creditors debtors i j settlements rule: settle_loop.induct)
  case (1 creditors debtors i j settlements)
  show ?case
  proof (cases "i < length creditors \<and> j < length debtors")
    case False
    then have "drop i creditors = [] \<or> drop j debtors = []"
      by auto
    then have "settle (drop i creditors) (drop j debtors) = []"
      by (cases "drop i creditors") auto
    moreover have "settle_loop creditors debtors i j settlements = settlements"
      using False by (subst settle_loop.simps) auto
    ultimately show ?thesis
      by simp
  next
    case True
    then have ci: "drop i creditors = creditors ! i # drop (Suc i) creditors"
      and dj: "drop j debtors = debtors ! j # drop (Suc j) debtors"
      by (simp_all add: Cons_nth_drop_Suc)
    have upd: "\<And>xs k (v::Entry). k < length xs \<Longrightarrow> drop k (xs[k := v]) = v # drop (Suc k) xs"
      by (metis Cons_nth_drop_Suc drop_update_cancel length_list_update lessI nth_list_update_eq)
    show ?thesis
      apply (subst settle_loop.simps)
      using True "1.IH" [OF True refl refl refl refl refl refl refl refl]
      apply (simp add: ci dj Let_def upd settle.simps(3))
      done
  qed
qed

lemma settle_amounts_positive:
  "(\<forall>c \<in> set creditors. 0 < en_amount c) \<Longrightarrow> (\<forall>d \<in> set debtors. 0 < en_amount d)
   \<Longrightarrow> \<forall>s \<in> set (settle creditors debtors). 0 < st_amount s"
proof (induction creditors debtors rule: settle.induct)
  case (3 creditor creditors debtor debtors)
  let ?a = "min (en_amount creditor) (en_amount debtor)"
  let ?cs = "if en_amount (creditor\<lparr>en_amount := en_amount creditor - ?a\<rparr>) < 1 / 100
             then creditors else creditor\<lparr>en_amount := en_amount creditor - ?a\<rparr> # creditors"
  let ?ds = "if en_amount (debtor\<lparr>en_amount := en_amount debtor - ?a\<rparr>) < 1 / 100
             then debtors else debtor\<lparr>en_amount := en_amount debtor - ?a\<rparr> # debtors"
  have pos: "0 < ?a"
    using "3.prems" by simp
  have cs: "\<forall>c \<in> set ?cs. 0 < en_amount c"
    using "3.prems"(1) by auto
  have ds: "\<forall>d \<in> set ?ds. 0 < en_amount d"
    using "3.prems"(2) by auto
  have "\<forall>s \<in> set (settle ?cs ?ds). 0 < st_amount s"
    by (rule "3.IH" [OF refl refl refl cs ds])
  then show ?case
    using pos by (simp add: settle.simps(3) Let_def)
qed simp_all

lemma settle_ids:
  "\<forall>s \<in> set (settle creditors debtors).
      from_participant_id s \<in> en_id ` set debtors \<and> to_participant_id s \<in> en_id ` set creditors"
proof (induction creditors debtors rule: settle.induct)
  case (3 creditor creditors debtor debtors)
  let ?a = "min (en_amount creditor) (en_amount debtor)"
  let ?cs = "if en_amount (creditor\<lparr>en_amount := en_amount creditor - ?a\<rparr>) < 1 / 100
             then creditors else creditor\<lparr>en_amount := en_amount creditor - ?a\<rparr> # creditors"
  let ?ds = "if en_amount (debtor\<lparr>en_amount := en_amount debtor - ?a\<rparr>) < 1 / 100
             then debtors else debtor\<lparr>en_amount := en_amount debtor - ?a\<rparr> # debtors"
  have ih: "\<forall>s \<in> set (settle ?cs ?ds).
      from_participant_id s \<in> en_id ` set ?ds \<and> to_participant_id s \<in> en_id ` set ?cs"
    by (rule "3.IH" [OF refl refl refl])
  have "en_id ` set ?cs \<subseteq> en_id ` set (creditor # creditors)"
    and "en_id ` set ?ds \<subseteq> en_id ` set (debtor # debtors)"
    by auto
  with ih have "\<forall>s \<in> set (settle ?cs ?ds).
      from_participant_id s \<in> en_id ` set (debtor # debtors)
      \<and> to_participant_id s \<in> en_id ` set (creditor # creditors)"
    by blast
  then show ?case
    by (simp add: settle.simps(3) Let_def)
qed simp_all

lemma sum_list_amounts_nonneg:
  "(\<forall>c \<in> set xs. whole_cents (en_amount c) \<and> 0 \<le> en_amount c)
   \<Longrightarrow> 0 \<le> sum_list (map en_amount xs)"
  by (induction xs) auto

lemma whole_cents_abs: "whole_cents x \<Longrightarrow> whole_cents \<bar>x\<bar>"
proof -
  assume "whole_cents x"
  then obtain n :: int where "x = rat_of_int n / 100"
    unfolding whole_cents_iff by blast
  then have "\<bar>x\<bar> = rat_of_int \<bar>n\<bar> / 100"
    by simp
  then show ?thesis
    unfolding whole_cents_iff by blast
qed

lemma whole_cents_minus: "whole_cents x \<Longrightarrow> whole_cents (- x)"
proof -
  assume "whole_cents x"
  moreover have "whole_cents 0"
    by (simp add: whole_cents_def)
  ultimately have "whole_cents (0 - x)"
    by (intro whole_cents_diff)
  then show ?thesis
    by simp
qed

lemma whole_cents_small:
  assumes "whole_cents x" "0 \<le> x" "x < 1 / 100"
  shows "x = 0"
proof -
  obtain n :: int where n: "x = rat_of_int n / 100"
    using assms(1) unfolding whole_cents_iff by blast
  have "0 \<le> rat_of_int n" "rat_of_int n < 1"
    using assms(2,3) unfolding n by simp_all
  then have "0 \<le> n" "n < 1"
    by simp_all
  then have "n = 0"
    by simp
  then show ?thesis
    using n by simp
qed

lemma settle_total:
  "(\<forall>c \<in> set creditors. whole_cents (en_amount c) \<and> 0 \<le> en_amount c)
   \<Longrightarrow> (\<forall>d \<in> set debtors. whole_cents (en_amount d) \<and> 0 \<le> en_amount d)
   \<Longrightarrow> sum_list (map st_amount (settle creditors debtors))
       = min (sum_list (map en_amount creditors)) (sum_list (map en_amount debtors))"
proof (induction creditors debtors rule: settle.induct)
  case (1 debtors)
  then have "0 \<le> sum_list (map en_amount debtors)"
    by (intro sum_list_amounts_nonneg)
  then show ?case by simp
next
  case (2 creditor creditors)
  then have "0 \<le> sum_list (map en_amount (creditor # creditors))"
    by (intro sum_list_amounts_nonneg)
  then show ?case by simp
next
  case (3 creditor creditors debtor debtors)
  let ?c = "en_amount creditor" and ?d = "en_amount debtor"
  let ?a = "min ?c ?d"
  let ?c' = "creditor\<lparr>en_amount := ?c - ?a\<rparr>" and ?d' = "debtor\<lparr>en_amount := ?d - ?a\<rparr>"
  let ?cs = "if en_amount ?c' < 1 / 100 then creditors else ?c' # creditors"
  let ?ds = "if en_amount ?d' < 1 / 100 then debtors else ?d' # debtors"
  have wc: "whole_cents ?c" "0 \<le> ?c" and wd: "whole_cents ?d" "0 \<le> ?d"
    using "3.prems" by simp_all
  have wa: "whole_cents ?a"
    using wc wd by (simp add: min_def)
  have c'0: "en_amount ?c' < 1 / 100 \<Longrightarrow> ?c - ?a = 0"
    using whole_cents_small [OF whole_cents_diff [OF wc(1) wa]] by (simp add: min_def split: if_splits)
  have d'0: "en_amount ?d' < 1 / 100 \<Longrightarrow> ?d - ?a = 0"
    using whole_cents_small [OF whole_cents_diff [OF wd(1) wa]] by (simp add: min_def split: if_splits)
  have cs: "\<forall>c \<in> set ?cs. whole_cents (en_amount c) \<and> 0 \<le> en_amount c"
    using "3.prems"(1) whole_cents_diff [OF wc(1) wa] by auto
  have ds: "\<forall>d \<in> set ?ds. whole_cents (en_amount d) \<and> 0 \<le> en_amount d"
    using "3.prems"(2) whole_cents_diff [OF wd(1) wa] by auto
  have ih: "sum_list (map st_amount (settle ?cs ?ds))
       = min (sum_list (map en_amount ?cs)) (sum_list (map en_amount ?ds))"
    by (rule "3.IH" [OF refl refl refl cs ds])
  have scs: "sum_list (map en_amount ?cs) = (?c - ?a) + sum_list (map en_amount creditors)"
    using c'0 by auto
  have sds: "sum_list (map en_amount ?ds) = (?d - ?a) + sum_list (map en_amount debtors)"
    using d'0 by auto
  have "sum_list (map st_amount (settle (creditor # creditors) (debtor # debtors)))
          = ?a + sum_list (map st_amount (settle ?cs ?ds))"
    by (simp add: settle.simps(3) Let_def)
  also have "\<dots> = ?a + min ((?c - ?a) + sum_list (map en_amount creditors))
                           ((?d - ?a) + sum_list (map en_amount debtors))"
    by (simp only: ih scs sds)
  also have "\<dots> = min (?c + sum_list (map en_amount creditors))
                      (?d + sum_list (map en_amount debtors))"
    by (simp add: min_def)
  finally show ?case
    by simp
qed


lemma sum_list_insort_key:
  "sum_list (map g (insort_key f x xs)) = (g x :: rat) + sum_list (map g xs)"
  by (induction xs) (auto simp: algebra_simps)

lemma sum_list_sort_key:
  "sum_list (map g (sort_key f xs)) = (sum_list (map g xs) :: rat)"
  by (induction xs) (simp_all add: sum_list_insort_key)

lemma generate_settlement_suggestions_settle:
  "generate_settlement_suggestions balances =
     settle (sort_key (\<lambda>x. - en_amount x) (creditors_of balances))
            (sort_key (\<lambda>x. - en_amount x) (debtors_of balances))"
  by (simp add: generate_settlement_suggestions_def Let_def settle_loop_settle
        creditors_of_def debtors_of_def)

lemma creditors_of_positive: "\<forall>c \<in> set (creditors_of balances). 0 < en_amount c"
  by (auto simp: creditors_of_def)

lemma debtors_of_positive: "\<forall>d \<in> set (debtors_of balances). 0 < en_amount d"
  by (auto simp: debtors_of_def)

lemma example_plan:
  "generate_settlement_suggestions example_balances =
     [\<lparr>from_participant_id = 2, from_participant_name = ''B'',
       to_participant_id = 1, to_participant_name = ''A'', st_amount = 30\<rparr>,
      \<lparr>from_participant_id = 3, from_participant_name = ''C'',
       to_participant_id = 1, to_participant_name = ''A'', st_amount = 20\<rparr>]"
  by code_simp

lemma fold_add_amounts:
  "fold (\<lambda>settlement acc. acc + st_amount settlement) xs a = a + sum_list (map st_amount xs)"
  by (induction xs arbitrary: a) (simp_all add: algebra_simps)

lemma get_settlement_suggestions_total:
  "ss_total_amount (get_settlement_suggestions group_id db) =
     sum_list (map st_amount
       (generate_settlement_suggestions (calculate_participant_balances group_id db)))"
  by (simp add: get_settlement_suggestions_def Let_def fold_add_amounts)

text \<open>
  Claim C9.  For every balance mapping, every entry of the settlement plan has a
  strictly positive amount.
\<close>

theorem settlement_amounts_positive:
  "\<forall>s \<in> set (generate_settlement_suggestions balances). 0 < st_amount s"
  unfolding generate_settlement_suggestions_settle
  by (rule settle_amounts_positive) (simp_all add: creditors_of_positive debtors_of_positive)

theorem settlement_amounts_positive_witness:
  "\<lparr>from_participant_id = 2, from_participant_name = ''B'',
     to_participant_id = 1, to_participant_name = ''A'', st_amount = 30\<rparr>
     \<in> set (generate_settlement_suggestions example_balances)
   \<and> 0 < st_amount \<lparr>from_participant_id = 2, from_participant_name = ''B'',
     to_participant_id = 1, to_participant_name = ''A'', st_amount = 30\<rparr>"
proof -
  let ?s = "\<lparr>from_participant_id = 2, from_participant_name = ''B'',
     to_participant_id = 1, to_participant_name = ''A'', st_amount = 30\<rparr>"
  have m: "?s \<in> set (generate_settlement_suggestions example_balances)"
    by (simp add: example_plan)
  then have "0 < st_amount ?s"
    using settlement_amounts_positive [of example_balances] by blast
  with m show ?thesis
    by blast
qed

lemma creditors_of_ids:
  "k \<in> en_id ` set (creditors_of balances)
   \<Longrightarrow> \<exists>b. (k, b) \<in> set balances \<and> net_balance b > 1 / 100"
  by (auto simp: creditors_of_def)

lemma debtors_of_ids:
  "k \<in> en_id ` set (debtors_of balances)
   \<Longrightarrow> \<exists>b. (k, b) \<in> set balances \<and> net_balance b < - (1 / 100)"
  by (auto simp: debtors_of_def)

text \<open>
  Claim C10.  For every balance mapping (a dictionary: its keys are distinct), no
  settlement of the plan is a self-transfer: its debtor and its creditor are
  different participants.
\<close>

theorem settlement_no_self_transfer:
  assumes "distinct (map fst balances)"
  shows "\<forall>s \<in> set (generate_settlement_suggestions balances).
           from_participant_id s \<noteq> to_participant_id s"
proof
  fix s
  assume "s \<in> set (generate_settlement_suggestions balances)"
  then have "from_participant_id s \<in> en_id ` set (debtors_of balances)"
    and "to_participant_id s \<in> en_id ` set (creditors_of balances)"
    using settle_ids [of "sort_key (\<lambda>x. - en_amount x) (creditors_of balances)"
                         "sort_key (\<lambda>x. - en_amount x) (debtors_of balances)"]
    unfolding generate_settlement_suggestions_settle by simp_all
  then obtain b b' where b: "(from_participant_id s, b) \<in> set balances" "net_balance b < - (1 / 100)"
    and b': "(to_participant_id s, b') \<in> set balances" "net_balance b' > 1 / 100"
    using debtors_of_ids creditors_of_ids by blast
  show "from_participant_id s \<noteq> to_participant_id s"
  proof
    assume "from_participant_id s = to_participant_id s"
    then have "b = b'"
      using assms b(1) b'(1) by (metis eq_key_imp_eq_value)
    then show False
      using b(2) b'(2) by simp
  qed
qed

theorem settlement_no_self_transfer_witness:
  "distinct (map fst example_balances)
   \<and> \<lparr>from_participant_id = 2, from_participant_name = ''B'',
     to_participant_id = 1, to_participant_name = ''A'', st_amount = 30\<rparr>
     \<in> set (generate_settlement_suggestions example_balances)
   \<and> from_participant_id \<lparr>from_participant_id = 2, from_participant_name = ''B'',
     to_participant_id = 1, to_participant_name = ''A'', st_amount = 30\<rparr>
     \<noteq> to_participant_id \<lparr>from_participant_id = 2, from_participant_name = ''B'',
     to_participant_id = 1, to_participant_name = ''A'', st_amount = 30\<rparr>"
proof -
  let ?s = "\<lparr>from_participant_id = 2, from_participant_name = ''B'',
     to_participant_id = 1, to_participant_name = ''A'', st_amount = 30\<rparr>"
  have d: "distinct (map fst example_balances)"
    by (simp add: example_balances_def example_balance_def)
  have m: "?s \<in> set (generate_settlement_suggestions example_balances)"
    by (simp add: example_plan)
  then have "from_participant_id ?s \<noteq> to_participant_id ?s"
    using settlement_no_self_transfer [OF d] by blast
  with d m show ?thesis
    by blast
qed

lemma creditors_sum:
  assumes "\<forall>(k, b) \<in> set balances. whole_cents (net_balance b) \<and> \<bar>net_balance b\<bar> \<noteq> 1 / 100"
  shows "sum_list (map en_amount (creditors_of balances))
           = sum_list (map (\<lambda>(k, b). max 0 (net_balance b)) balances)"
  using assms
proof (induction balances)
  case Nil
  then show ?case by (simp add: creditors_of_def)
next
  case (Cons kb balances)
  obtain k b where kb: "kb = (k, b)" by (cases kb)
  have w: "whole_cents (net_balance b)" and n: "\<bar>net_balance b\<bar> \<noteq> 1 / 100"
    using Cons.prems kb by auto
  have "net_balance b > 1 / 100 \<or> net_balance b \<le> 0"
  proof (rule ccontr)
    assume "\<not> (net_balance b > 1 / 100 \<or> net_balance b \<le> 0)"
    then have r: "0 < net_balance b" "net_balance b < 1 / 100"
      using n by auto
    then show False
      using whole_cents_small [OF w] by simp
  qed
  moreover have "sum_list (map en_amount (creditors_of balances))
           = sum_list (map (\<lambda>(k, b). max 0 (net_balance b)) balances)"
    using Cons by simp
  ultimately show ?case
    unfolding kb creditors_of_def by auto
qed

lemma debtors_sum:
  assumes "\<forall>(k, b) \<in> set balances. whole_cents (net_balance b) \<and> \<bar>net_balance b\<bar> \<noteq> 1 / 100"
  shows "sum_list (map en_amount (debtors_of balances))
           = sum_list (map (\<lambda>(k, b). max 0 (- net_balance b)) balances)"
  using assms
proof (induction balances)
  case Nil
  then show ?case by (simp add: debtors_of_def)
next
  case (Cons kb balances)
  obtain k b where kb: "kb = (k, b)" by (cases kb)
  have w: "whole_cents \<bar>net_balance b\<bar>" and n: "\<bar>net_balance b\<bar> \<noteq> 1 / 100"
    using Cons.prems kb whole_cents_abs by auto
  have "net_balance b < - (1 / 100) \<or> 0 \<le> net_balance b"
  proof (rule ccontr)
    assume "\<not> (net_balance b < - (1 / 100) \<or> 0 \<le> net_balance b)"
    then have r: "0 \<le> \<bar>net_balance b\<bar>" "\<bar>net_balance b\<bar> < 1 / 100" "net_balance b < 0"
      using n by auto
    then show False
      using whole_cents_small [OF w] by simp
  qed
  moreover have "sum_list (map en_amount (debtors_of balances))
           = sum_list (map (\<lambda>(k, b). max 0 (- net_balance b)) balances)"
    using Cons by simp
  ultimately show ?case
    unfolding kb debtors_of_def by auto
qed

lemma max_parts_sum:
  "sum_list (map (\<lambda>(k, b). max 0 (net_balance b)) balances)
     - sum_list (map (\<lambda>(k, b). max 0 (- net_balance b)) balances)
   = sum_list (map (net_balance \<circ> snd) balances)"
  by (induction balances) (auto simp: max_def)

text \<open>
  Claim C3, as stated: for every balance mapping the plan's total transferred amount
  equals the sum of \<open>max 0 net_balance\<close>.  A balance of one cent is inside the
  tolerance band and is not settled: for \<open>{A: +0.01, B: -0.01}\<close> the plan is empty,
  its total is 0, and the amount owed is 0.01.
\<close>

theorem settlement_total_drops_dust:
  "sum_list (map st_amount (generate_settlement_suggestions
      [example_balance 1 ''A'' (1 / 100), example_balance 2 ''B'' (- (1 / 100))])) = 0
   \<and> sum_list (map (\<lambda>(k, b). max 0 (net_balance b))
      [example_balance 1 ''A'' (1 / 100), example_balance 2 ''B'' (- (1 / 100))]) = 1 / 100"
  by code_simp

text \<open>
  Claim C3, amended.  For every balance mapping whose net balances are in whole
  cents, sum to zero, and are none of them exactly one cent in absolute value, the
  plan's total transferred amount equals the sum of \<open>max 0 net_balance\<close> over all
  participants.
\<close>

theorem settlement_total_amount:
  assumes "\<forall>(k, b) \<in> set balances. whole_cents (net_balance b) \<and> \<bar>net_balance b\<bar> \<noteq> 1 / 100"
    and "sum_list (map (net_balance \<circ> snd) balances) = 0"
  shows "sum_list (map st_amount (generate_settlement_suggestions balances))
           = sum_list (map (\<lambda>(k, b). max 0 (net_balance b)) balances)"
proof -
  let ?cs = "sort_key (\<lambda>x. - en_amount x) (creditors_of balances)"
  let ?ds = "sort_key (\<lambda>x. - en_amount x) (debtors_of balances)"
  have wc: "\<forall>c \<in> set (creditors_of balances). whole_cents (en_amount c) \<and> 0 \<le> en_amount c"
    using assms(1) by (auto simp: creditors_of_def)
  have wd: "\<forall>d \<in> set (debtors_of balances). whole_cents (en_amount d) \<and> 0 \<le> en_amount d"
    using assms(1) by (auto simp: debtors_of_def intro: whole_cents_abs whole_cents_minus)
  have "sum_list (map st_amount (settle ?cs ?ds))
          = min (sum_list (map en_amount ?cs)) (sum_list (map en_amount ?ds))"
    by (rule settle_total) (simp_all add: wc wd)
  also have "\<dots> = min (sum_list (map (\<lambda>(k, b). max 0 (net_balance b)) balances))
                      (sum_list (map (\<lambda>(k, b). max 0 (- net_balance b)) balances))"
    by (simp only: sum_list_sort_key creditors_sum [OF assms(1)] debtors_sum [OF assms(1)])
  also have "\<dots> = sum_list (map (\<lambda>(k, b). max 0 (net_balance b)) balances)"
    using max_parts_sum [of balances] assms(2) by simp
  finally show ?thesis
    unfolding generate_settlement_suggestions_settle .
qed

theorem settlement_total_amount_witness:
  "sum_list (map (net_balance \<circ> snd) example_balances) = 0
   \<and> sum_list (map st_amount (generate_settlement_suggestions example_balances)) = 50"
proof -
  have h: "\<forall>(k, b) \<in> set example_balances.
             whole_cents (net_balance b) \<and> \<bar>net_balance b\<bar> \<noteq> 1 / 100"
    by code_simp
  have z: "sum_list (map (net_balance \<circ> snd) example_balances) = 0"
    by (simp add: example_balances_def example_balance_def)
  have "sum_list (map st_amount (generate_settlement_suggestions example_balances)) = 50"
    using settlement_total_amount [OF h z]
    by (simp add: example_balances_def example_balance_def)
  with z show ?thesis
    by blast
qed

end
